theory Spec2Isabelle
  imports Main
begin

section \<open>JSON values as the server sees them\<close>

text \<open>
  The server reads every inbound frame with \<^verbatim>\<open>JSON.parse\<close>. A parsed value is one of the
  six JSON shapes. Numbers are modelled as integers (request ids, sizes and flags are the
  only numbers the modelled code inspects). A property that is absent reads as
  \<^verbatim>\<open>undefined\<close>, modelled as \<open>None\<close> of type \<open>json option\<close>.
\<close>

datatype json =
    JNull
  | JBool bool
  | JNum int
  | JStr string
  | JArr "json list"
  | JObj "(string \<times> json) list"

text \<open>
  \<^verbatim>\<open>msg.name\<close> on a parsed value that is not \<^verbatim>\<open>null\<close>. \<^verbatim>\<open>JSON.parse\<close> keeps the last
  of duplicated keys. Primitives and arrays have none of the property names the server reads
  (\<^verbatim>\<open>type\<close>, \<^verbatim>\<open>requestId\<close>, \<^verbatim>\<open>error\<close>, \<^verbatim>\<open>result\<close>, \<^verbatim>\<open>success\<close>).
\<close>

fun jprop :: "json \<Rightarrow> string \<Rightarrow> json option" where
  "jprop (JObj kvs) k = map_of (rev kvs) k"
| "jprop _ k = None"

text \<open>JavaScript truthiness, as used by \<^verbatim>\<open>if (v)\<close>, \<^verbatim>\<open>!v\<close>, \<^verbatim>\<open>a && b\<close> and \<^verbatim>\<open>c ? x : y\<close>.\<close>

fun truthy :: "json option \<Rightarrow> bool" where
  "truthy None = False"
| "truthy (Some JNull) = False"
| "truthy (Some (JBool b)) = b"
| "truthy (Some (JNum n)) = (n \<noteq> 0)"
| "truthy (Some (JStr s)) = (s \<noteq> [])"
| "truthy (Some (JArr xs)) = True"
| "truthy (Some (JObj kvs)) = True"

text \<open>
  Conversion to a string, as done by a template literal and by \<^verbatim>\<open>new Error(v)\<close>. It
  throws a \<^verbatim>\<open>TypeError\<close> for a value with no string form. A parsed object has one unless
  it has a key \<^verbatim>\<open>toString\<close> of its own: that key hides the inherited method, no parsed
  value can be called, and \<^verbatim>\<open>valueOf\<close> yields no primitive either. An array is joined
  from the string forms of its elements, so it has one when each element has.
\<close>

fun convertible :: "json \<Rightarrow> bool" where
  "convertible (JObj kvs) = (''toString'' \<notin> set (map fst kvs))"
| "convertible (JArr xs) = (\<forall>x \<in> set xs. convertible x)"
| "convertible _ = True"

text \<open>
  The string form of a value that has one. \<open>numberText\<close> is the text the engine gives
  for a number; for an integer of magnitude up to \<open>2\<^sup>5\<^sup>3\<close> it is the decimal digits, which
  \<open>int_to_string\<close> computes. In an array \<^verbatim>\<open>null\<close> contributes the empty string.
\<close>

definition digit_char :: "nat \<Rightarrow> char" where
  "digit_char d = char_of (48 + d)"

fun digits :: "nat \<Rightarrow> string" where
  "digits n = (if n < 10 then [digit_char n] else digits (n div 10) @ [digit_char (n mod 10)])"

declare digits.simps [simp del]

definition int_to_string :: "int \<Rightarrow> string" where
  "int_to_string i = (if i < 0 then CHR ''-'' # digits (nat (- i)) else digits (nat i))"

fun join :: "string \<Rightarrow> string list \<Rightarrow> string" where
  "join sep [] = []"
| "join sep [s] = s"
| "join sep (s # t # ss) = s @ sep @ join sep (t # ss)"

fun to_string :: "(int \<Rightarrow> string) \<Rightarrow> json \<Rightarrow> string" where
  "to_string numberText JNull = ''null''"
| "to_string numberText (JBool b) = (if b then ''true'' else ''false'')"
| "to_string numberText (JNum n) = numberText n"
| "to_string numberText (JStr s) = s"
| "to_string numberText (JArr xs) =
     join '','' (map (\<lambda>x. if x = JNull then [] else to_string numberText x) xs)"
| "to_string numberText (JObj kvs) = ''[object Object]''"

text \<open>
  \<^verbatim>\<open>String(v)\<close> for a value that may be \<^verbatim>\<open>undefined\<close>: \<open>None\<close> when the conversion
  throws.
\<close>

definition String :: "(int \<Rightarrow> string) \<Rightarrow> json option \<Rightarrow> string option" where
  "String numberText v =
     (case v of
        None \<Rightarrow> Some ''undefined''
      | Some j \<Rightarrow> if convertible j then Some (to_string numberText j) else None)"

section \<open>The server state and the correlated-request channel\<close>

text \<open>
  Failures of \<^verbatim>\<open>sendToPremmiere\<close>, each an \<^verbatim>\<open>Error\<close> in the source: the one thrown
  without a connection, the one of the timeout, with the delay it names, and the one made
  with \<^verbatim>\<open>new Error(msg.error)\<close>, with the value it was made from (its message is the string
  form of that value).
\<close>

datatype error =
    NotConnected
  | Timeout int
  | RemoteError json

text \<open>How a promise is settled: rejected with an error, or resolved with a value.\<close>

type_synonym outcome = "error + json option"

text \<open>
  The module's variables (\<^verbatim>\<open>premiereConnection\<close> to \<^verbatim>\<open>lastCrashLog\<close>), followed by the
  parts of the runtime the code acts on:
  \<^item> \<open>openSockets\<close>: the sockets whose \<^verbatim>\<open>message\<close> and \<^verbatim>\<open>close\<close> handlers are registered;
  \<^item> \<open>timers\<close>: the armed \<^verbatim>\<open>setTimeout\<close> timers, by the request that created them, with
    the timeout given;
  \<^item> \<open>sent\<close>: the frames handed to \<^verbatim>\<open>send\<close>, with the socket;
  \<^item> \<open>settled\<close>: every call of a promise's \<^verbatim>\<open>resolve\<close> or \<^verbatim>\<open>reject\<close>, in order, by the
    request whose promise it is.

  \<open>pendingRequests\<close> maps a key to the request whose closure (\<^verbatim>\<open>{resolve: (msg) => ...}\<close>)
  is stored under it: the closure captures that request's timer and promise.
  \<open>requestIdCounter\<close> is a JavaScript number, exact for every count below \<open>2\<^sup>5\<^sup>3\<close>; it is
  modelled as a natural number.
\<close>

record server =
  premiereConnection :: "nat option"
  lastHeartbeat :: int
  pendingRequests :: "nat \<rightharpoonup> nat"
  requestIdCounter :: nat
  lastCrashTime :: int
  lastCrashLog :: string
  openSockets :: "nat set"
  timers :: "nat \<rightharpoonup> int"
  sent :: "(nat \<times> json) list"
  settled :: "(nat \<times> outcome) list"

definition init :: server where
  "init = \<lparr> premiereConnection = None, lastHeartbeat = 0, pendingRequests = Map.empty,
            requestIdCounter = 0, lastCrashTime = 0, lastCrashLog = [],
            openSockets = {}, timers = Map.empty, sent = [], settled = [] \<rparr>"

text \<open>
  \<^verbatim>\<open>sendToPremmiere(command, params = {}, timeout = 30000)\<close>. The result is \<open>Inl\<close> of the
  error thrown at once, or \<open>Inr\<close> of the request whose promise is returned. The
  parameters are JSON values, so \<^verbatim>\<open>JSON.stringify\<close> succeeds, and \<^verbatim>\<open>send\<close> on the attached
  socket is taken not to throw.
\<close>

definition sendToPremmiere ::
  "server \<Rightarrow> string \<Rightarrow> json option \<Rightarrow> int option \<Rightarrow> (error + nat) \<times> server" where
  "sendToPremmiere st command params timeout =
    (case premiereConnection st of
       None \<Rightarrow> (Inl NotConnected, st)
     | Some ws \<Rightarrow>
        (let params' = (case params of None \<Rightarrow> JObj [] | Some p \<Rightarrow> p);
             timeout' = (case timeout of None \<Rightarrow> 30000 | Some t \<Rightarrow> t);
             requestId = Suc (requestIdCounter st)
         in (Inr requestId,
             st\<lparr> requestIdCounter := requestId,
                 timers := (timers st)(requestId \<mapsto> timeout'),
                 pendingRequests := (pendingRequests st)(requestId \<mapsto> requestId),
                 sent := sent st @ [(ws, JObj [(''type'', JStr ''command''),
                                               (''requestId'', JNum (int requestId)),
                                               (''command'', JStr command),
                                               (''params'', params')])] \<rparr>)))"

text \<open>The timer callback of request \<open>r\<close>; it runs only while the timer is armed.\<close>

definition timerFired :: "server \<Rightarrow> nat \<Rightarrow> server" where
  "timerFired st r =
    (case timers st r of
       None \<Rightarrow> st
     | Some timeout \<Rightarrow>
         st\<lparr> timers := (timers st)(r := None),
             pendingRequests := (pendingRequests st)(r := None),
             settled := settled st @ [(r, Inl (Timeout timeout))] \<rparr>)"

text \<open>
  What the stored closure does with its promise when called with a message: it rejects
  with \<^verbatim>\<open>new Error(msg.error)\<close> when \<^verbatim>\<open>msg.error\<close> is truthy and resolves with
  \<^verbatim>\<open>msg.result\<close> otherwise. \<open>None\<close>: \<^verbatim>\<open>new Error\<close> throws, the error value having no
  string form, and the promise is not touched.
\<close>

definition response_outcome :: "json \<Rightarrow> outcome option" where
  "response_outcome msg =
    (case jprop msg ''error'' of
       None \<Rightarrow> Some (Inr (jprop msg ''result''))
     | Some e \<Rightarrow>
         if truthy (Some e)
         then (if convertible e then Some (Inl (RemoteError e)) else None)
         else Some (Inr (jprop msg ''result'')))"

text \<open>
  The stored closure of request \<open>r\<close>, called with a message: it first clears the timer of
  \<open>r\<close>, then settles the promise of \<open>r\<close>. \<open>Inr\<close> is the state when the call returns,
  \<open>Inl\<close> the state when it throws.
\<close>

definition pending_resolve :: "server \<Rightarrow> nat \<Rightarrow> json \<Rightarrow> server + server" where
  "pending_resolve st r msg =
    (case response_outcome msg of
       None \<Rightarrow> Inl (st\<lparr> timers := (timers st)(r := None) \<rparr>)
     | Some out \<Rightarrow> Inr (st\<lparr> timers := (timers st)(r := None),
                           settled := settled st @ [(r, out)] \<rparr>))"

text \<open>
  A \<^verbatim>\<open>Map\<close> key: the counter only ever stores positive integers, and a \<^verbatim>\<open>Map\<close> compares
  keys without conversion, so a string or any other value finds nothing.
\<close>

fun map_key :: "json option \<Rightarrow> nat option" where
  "map_key (Some (JNum n)) = (if 0 \<le> n then Some (nat n) else None)"
| "map_key _ = None"

definition pending_get :: "server \<Rightarrow> json option \<Rightarrow> nat option" where
  "pending_get st k = (case map_key k of None \<Rightarrow> None | Some n \<Rightarrow> pendingRequests st n)"

definition pending_delete :: "server \<Rightarrow> json option \<Rightarrow> server" where
  "pending_delete st k =
    (case map_key k of None \<Rightarrow> st
     | Some n \<Rightarrow> st\<lparr> pendingRequests := (pendingRequests st)(n := None) \<rparr>)"

text \<open>
  The \<^verbatim>\<open>message\<close> handler. \<open>data\<close> is \<open>None\<close> when \<^verbatim>\<open>JSON.parse\<close> throws; reading
  \<^verbatim>\<open>msg.type\<close> of \<^verbatim>\<open>null\<close> throws as well. Both land in the \<^verbatim>\<open>catch\<close>, which only logs.
  So does an exception of the stored closure, and then \<^verbatim>\<open>pendingRequests.delete\<close> is not
  reached.
\<close>

definition onMessage :: "server \<Rightarrow> json option \<Rightarrow> int \<Rightarrow> server" where
  "onMessage st data now =
    (case data of
       None \<Rightarrow> st
     | Some JNull \<Rightarrow> st
     | Some msg \<Rightarrow>
        if jprop msg ''type'' = Some (JStr ''heartbeat'') then st\<lparr> lastHeartbeat := now \<rparr>
        else if jprop msg ''type'' = Some (JStr ''auto_setup_complete'') then st
        else if jprop msg ''type'' = Some (JStr ''response'') \<and> truthy (jprop msg ''requestId'') then
          (case pending_get st (jprop msg ''requestId'') of
             None \<Rightarrow> st
           | Some r \<Rightarrow>
               (case pending_resolve st r msg of
                  Inl st' \<Rightarrow> st'
                | Inr st' \<Rightarrow> pending_delete st' (jprop msg ''requestId'')))
        else st)"

text \<open>The \<^verbatim>\<open>connection\<close> handler of the socket server and the \<^verbatim>\<open>close\<close> handler of a socket.\<close>

definition onConnection :: "server \<Rightarrow> nat \<Rightarrow> int \<Rightarrow> server" where
  "onConnection st ws now =
    st\<lparr> premiereConnection := Some ws, lastHeartbeat := now,
        openSockets := insert ws (openSockets st) \<rparr>"

definition onClose :: "server \<Rightarrow> nat \<Rightarrow> server" where
  "onClose st ws = st\<lparr> premiereConnection := None, openSockets := openSockets st - {ws} \<rparr>"

section \<open>The liveness monitor\<close>

text \<open>
  One entry of the crash-report directory, as \<^verbatim>\<open>getLatestCrashLog\<close> meets it: its name,
  the modification time \<^verbatim>\<open>statSync\<close> reports (in milliseconds; \<open>None\<close> when
  \<^verbatim>\<open>statSync\<close> throws) and the text \<^verbatim>\<open>readFileSync\<close> returns (\<open>None\<close> when it throws).
\<close>

record crash_file =
  name :: string
  mtime :: "int option"
  contents :: "string option"

text \<open>\<^verbatim>\<open>s.includes(t)\<close> and \<^verbatim>\<open>s.endsWith(t)\<close>.\<close>

fun str_includes :: "string \<Rightarrow> string \<Rightarrow> bool" where
  "str_includes [] t = (t = [])"
| "str_includes (c # s) t = (take (length t) (c # s) = t \<or> str_includes s t)"

definition endsWith :: "string \<Rightarrow> string \<Rightarrow> bool" where
  "endsWith s t = (length t \<le> length s \<and> drop (length s - length t) s = t)"

definition is_candidate :: "crash_file \<Rightarrow> bool" where
  "is_candidate f = (str_includes (name f) ''Adobe Premiere Pro'' \<and> endsWith (name f) ''.crash'')"

text \<open>The \<^verbatim>\<open>map\<close> that stats every candidate in turn; one failing \<^verbatim>\<open>statSync\<close> ends it.\<close>

fun stat_all :: "crash_file list \<Rightarrow> (int \<times> crash_file) list option" where
  "stat_all [] = Some []"
| "stat_all (f # fs) =
     (case mtime f of
        None \<Rightarrow> None
      | Some m \<Rightarrow> (case stat_all fs of None \<Rightarrow> None | Some rest \<Rightarrow> Some ((m, f) # rest)))"

text \<open>
  \<^verbatim>\<open>getLatestCrashLog()\<close>. \<open>dir\<close> is the listing of the crash-report directory (\<open>None\<close> when
  \<^verbatim>\<open>readdirSync\<close> throws) and \<open>now\<close> the reading of \<^verbatim>\<open>Date.now()\<close>. The sort is the
  stable sort of the runtime with the comparator \<^verbatim>\<open>b.mtime - a.mtime\<close>, newest first. Every
  exception ends in the \<^verbatim>\<open>catch\<close> and the empty string.
\<close>

definition getLatestCrashLog :: "crash_file list option \<Rightarrow> int \<Rightarrow> string" where
  "getLatestCrashLog dir now =
    (case dir of
       None \<Rightarrow> []
     | Some entries \<Rightarrow>
        (case stat_all (filter is_candidate entries) of
           None \<Rightarrow> []
         | Some stated \<Rightarrow>
            (case sort_key (\<lambda>(m, f). - m) stated of
               [] \<Rightarrow> []
             | (m, f) # rest \<Rightarrow>
                 if m > now - 60000
                 then (case contents f of None \<Rightarrow> [] | Some t \<Rightarrow> take 5000 t)
                 else [])))"

text \<open>
  \<^verbatim>\<open>checkForCrash()\<close>, run one second after a socket closes. \<open>isRunning\<close> is what
  \<^verbatim>\<open>isPremiereRunning()\<close> returns, \<open>now\<close> the reading of the clock stored as crash time,
  and \<open>dir\<close>, \<open>now'\<close> what \<^verbatim>\<open>getLatestCrashLog\<close> then finds.
\<close>

definition checkForCrash ::
  "server \<Rightarrow> bool \<Rightarrow> int \<Rightarrow> crash_file list option \<Rightarrow> int \<Rightarrow> server" where
  "checkForCrash st isRunning now dir now' =
    (if \<not> isRunning \<and> lastHeartbeat st > 0
     then st\<lparr> lastCrashTime := now, lastCrashLog := getLatestCrashLog dir now' \<rparr>
     else st)"

section \<open>Runs of the server\<close>

text \<open>
  What can happen to the server, one event at a time: a peer connects, a frame arrives on
  a socket, a socket closes, the delayed crash check runs, a caller sends a command, the
  timer of a request fires. Frames and close events only reach sockets that are open.
\<close>

datatype event =
    Connection nat int
  | Message nat "json option" int
  | Close nat
  | CheckForCrash bool int "crash_file list option" int
  | Send string "json option" "int option"
  | TimerFired nat

fun react :: "server \<Rightarrow> event \<Rightarrow> server" where
  "react st (Connection ws now) = onConnection st ws now"
| "react st (Message ws data now) = (if ws \<in> openSockets st then onMessage st data now else st)"
| "react st (Close ws) = (if ws \<in> openSockets st then onClose st ws else st)"
| "react st (CheckForCrash isRunning now dir now') = checkForCrash st isRunning now dir now'"
| "react st (Send command params timeout) = snd (sendToPremmiere st command params timeout)"
| "react st (TimerFired r) = timerFired st r"

definition run :: "server \<Rightarrow> event list \<Rightarrow> server" where
  "run st evs = foldl react st evs"

text \<open>The ids handed out to the sends of a run, in the order of the sends.\<close>

fun assigned_ids :: "server \<Rightarrow> event list \<Rightarrow> nat list" where
  "assigned_ids st [] = []"
| "assigned_ids st (Send command params timeout # evs) =
     (case fst (sendToPremmiere st command params timeout) of
        Inl e \<Rightarrow> assigned_ids (react st (Send command params timeout)) evs
      | Inr r \<Rightarrow> r # assigned_ids (react st (Send command params timeout)) evs)"
| "assigned_ids st (e # evs) = assigned_ids (react st e) evs"

text \<open>The calls that settled the promise of request \<open>r\<close>.\<close>

definition settlements :: "server \<Rightarrow> nat \<Rightarrow> outcome list" where
  "settlements st r = map snd (filter (\<lambda>p. fst p = r) (settled st))"

text \<open>The response frames of a run that bear the id \<open>r\<close>.\<close>

fun is_response_for :: "nat \<Rightarrow> json \<Rightarrow> event \<Rightarrow> bool" where
  "is_response_for r msg (Message ws data now) =
     (data = Some msg \<and> jprop msg ''type'' = Some (JStr ''response'') \<and>
      jprop msg ''requestId'' = Some (JNum (int r)))"
| "is_response_for r msg _ = False"

section \<open>The invariant of the channel\<close>

text \<open>
  What holds of a request number \<open>r\<close> in every state the server reaches. While the timer
  of \<open>r\<close> is armed, its closure is stored under \<open>r\<close> itself and its promise is not
  settled. With no timer armed, either the closure of \<open>r\<close> is still stored under \<open>r\<close>
  and the promise is not settled (the closure threw after clearing the timer), or nothing is
  stored under \<open>r\<close> and the promise is settled once if \<open>r\<close> has been handed out and
  never if it has not.
\<close>

definition req_ok :: "server \<Rightarrow> nat \<Rightarrow> bool" where
  "req_ok st r =
     (case timers st r of
        Some t \<Rightarrow> pendingRequests st r = Some r \<and> 0 < r \<and> r \<le> requestIdCounter st \<and>
                  settlements st r = []
      | None \<Rightarrow>
          (case pendingRequests st r of
             Some q \<Rightarrow> q = r \<and> 0 < r \<and> r \<le> requestIdCounter st \<and> settlements st r = []
           | None \<Rightarrow>
               (if 0 < r \<and> r \<le> requestIdCounter st then length (settlements st r) = 1
                else settlements st r = [])))"

definition channel_inv :: "server \<Rightarrow> bool" where
  "channel_inv st = (\<forall>r. req_ok st r)"

text \<open>
  A settlement of request \<open>r\<close> is explained by a run if it is a timeout or the outcome of a
  response frame of that run bearing the id \<open>r\<close>.
\<close>

definition explained :: "event list \<Rightarrow> nat \<times> outcome \<Rightarrow> bool" where
  "explained evs p =
     ((\<exists>t. snd p = Inl (Timeout t)) \<or>
      (\<exists>e \<in> set evs. \<exists>msg. is_response_for (fst p) msg e \<and>
                                 response_outcome msg = Some (snd p)))"

text \<open>
  A frame whose handling cannot throw in the stored closure: it is not a parsed value, or
  the closure has an outcome for it. And the states in which no request is left with its
  closure stored and its timer cleared.
\<close>

fun frame_ok :: "event \<Rightarrow> bool" where
  "frame_ok (Message ws (Some msg) now) = (response_outcome msg \<noteq> None)"
| "frame_ok _ = True"

definition no_stuck :: "server \<Rightarrow> bool" where
  "no_stuck st = (\<forall>r. pendingRequests st r \<noteq> None \<longrightarrow> timers st r \<noteq> None)"

section \<open>A response whose error has no string form\<close>

text \<open>
  A peer connects, one command is sent, and the response bearing its id carries the error
  \<^verbatim>\<open>{"toString": 1}\<close>.
\<close>

definition unprintable_error_response :: json where
  "unprintable_error_response =
     JObj [(''type'', JStr ''response''), (''requestId'', JNum 1),
           (''result'', JNull), (''error'', JObj [(''toString'', JNum 1)])]"

definition stuck_trace :: "event list" where
  "stuck_trace =
     [Connection 1 1000, Send ''apply_effect'' None None,
      Message 1 (Some unprintable_error_response) 2000]"


section \<open>A response with an empty error text\<close>



section \<open>What a run has seen\<close>

text \<open>
  Whether an event is a peer connecting, whether it is a heartbeat frame, and whether the
  clock reading it carries is positive (\<^verbatim>\<open>Date.now()\<close> counts milliseconds since 1970).
\<close>

fun is_connection :: "event \<Rightarrow> bool" where
  "is_connection (Connection ws now) = True"
| "is_connection _ = False"

fun is_heartbeat :: "event \<Rightarrow> bool" where
  "is_heartbeat (Message ws (Some msg) now) = (jprop msg ''type'' = Some (JStr ''heartbeat''))"
| "is_heartbeat _ = False"

fun clock_positive :: "event \<Rightarrow> bool" where
  "clock_positive (Connection ws now) = (0 < now)"
| "clock_positive (Message ws data now) = (0 < now)"
| "clock_positive _ = True"

text \<open>A peer connects and its socket closes before any frame has arrived.\<close>

definition silent_disconnect :: "event list" where
  "silent_disconnect = [Connection 1 1000, Close 1]"

text \<open>
  What every run keeps: \<^verbatim>\<open>lastHeartbeat\<close> is positive exactly when some peer has connected,
  and a socket can only be open after a connection.
\<close>

definition heartbeat_inv :: "event list \<Rightarrow> server \<Rightarrow> bool" where
  "heartbeat_inv evs st \<longleftrightarrow>
     (0 < lastHeartbeat st \<longleftrightarrow> list_ex is_connection evs) \<and> 0 \<le> lastHeartbeat st \<and>
     (openSockets st \<noteq> {} \<longrightarrow> list_ex is_connection evs)"

section \<open>A crash-report directory\<close>

text \<open>
  Two reports of the host, the second one newer, and a newer report of another program.
\<close>

definition report_dir :: "crash_file list" where
  "report_dir =
    [\<lparr> name = ''Adobe Premiere Pro 2025_a.crash'', mtime = Some 940000, contents = Some ''first'' \<rparr>,
     \<lparr> name = ''Adobe Premiere Pro 2025_b.crash'', mtime = Some 990000, contents = Some ''second'' \<rparr>,
     \<lparr> name = ''Finder_c.crash'', mtime = Some 999000, contents = Some ''other'' \<rparr>]"

section \<open>The dialog watcher\<close>

text \<open>
  The state of the dialog-handler module: its variable \<^verbatim>\<open>dialogWatcherInterval\<close>, the
  interval timers of the runtime that are live, and the handle the next \<^verbatim>\<open>setInterval\<close>
  will return.
\<close>

record dialog_handler =
  dialogWatcherInterval :: "nat option"
  activeIntervals :: "nat set"
  nextHandle :: nat

text \<open>
  \<^verbatim>\<open>startDialogWatcher()\<close> returns at once when the variable is set; otherwise it
  starts an interval timer and stores its handle. \<^verbatim>\<open>stopDialogWatcher()\<close> clears the
  timer the variable holds, if any, and resets the variable.
\<close>

definition startDialogWatcher :: "dialog_handler \<Rightarrow> dialog_handler" where
  "startDialogWatcher w =
    (case dialogWatcherInterval w of
       Some h \<Rightarrow> w
     | None \<Rightarrow> w\<lparr> dialogWatcherInterval := Some (nextHandle w),
                   activeIntervals := insert (nextHandle w) (activeIntervals w),
                   nextHandle := Suc (nextHandle w) \<rparr>)"

definition stopDialogWatcher :: "dialog_handler \<Rightarrow> dialog_handler" where
  "stopDialogWatcher w =
    (case dialogWatcherInterval w of
       Some h \<Rightarrow> w\<lparr> activeIntervals := activeIntervals w - {h}, dialogWatcherInterval := None \<rparr>
     | None \<Rightarrow> w)"

text \<open>
  The server handles tool calls concurrently, so while one run of the orchestrator is
  suspended in a sleep, other runs may start and stop the watcher.
\<close>

datatype watcher_op = Start | Stop

fun interfere :: "watcher_op list \<Rightarrow> dialog_handler \<Rightarrow> dialog_handler" where
  "interfere [] w = w"
| "interfere (Start # ops) w = interfere ops (startDialogWatcher w)"
| "interfere (Stop # ops) w = interfere ops (stopDialogWatcher w)"

section \<open>The recovery orchestrator\<close>

text \<open>
  What one round of \<^verbatim>\<open>waitForPremiereReady\<close> observes: whether \<^verbatim>\<open>pgrep\<close> finds the host,
  what \<^verbatim>\<open>hasModalDialog()\<close> returns, whether the window-count script answers \<^verbatim>\<open>true\<close>
  (a failing script counts as no), and the milliseconds the round's calls take.
\<close>

record probe =
  processFound :: bool
  modalDialog :: bool
  mainWindow :: bool
  spent :: nat

text \<open>
  The loop of \<^verbatim>\<open>waitForPremiereReady(maxWaitMs)\<close>. \<open>now\<close> is the reading of
  \<^verbatim>\<open>Date.now()\<close> at the loop test and \<open>k\<close> counts the rounds. The clock does not run
  backwards, and \<^verbatim>\<open>sleep(1000)\<close> lets at least 1000 ms pass. The result is the value
  returned and the clock reading at the return.
\<close>

function waitForPremiereReady_loop ::
  "(nat \<Rightarrow> probe) \<Rightarrow> int \<Rightarrow> int \<Rightarrow> int \<Rightarrow> nat \<Rightarrow> bool \<times> int" where
  "waitForPremiereReady_loop probes maxWaitMs startTime now k =
    (if now - startTime < maxWaitMs then
       (if \<not> processFound (probes k) then
          waitForPremiereReady_loop probes maxWaitMs startTime
            (now + int (spent (probes k)) + 1000) (Suc k)
        else if \<not> modalDialog (probes k) \<and> mainWindow (probes k) then
          (True, now + int (spent (probes k)))
        else
          waitForPremiereReady_loop probes maxWaitMs startTime
            (now + int (spent (probes k)) + 1000) (Suc k))
     else (False, now))"
  by pat_completeness auto
termination
  by (relation "measure (\<lambda>(probes, maxWaitMs, startTime, now, k). nat (startTime + maxWaitMs - now))")
     auto

declare waitForPremiereReady_loop.simps [simp del]

definition waitForPremiereReady :: "(nat \<Rightarrow> probe) \<Rightarrow> int \<Rightarrow> int \<Rightarrow> bool \<times> int" where
  "waitForPremiereReady probes maxWaitMs now = waitForPremiereReady_loop probes maxWaitMs now now 0"

text \<open>The object \<^verbatim>\<open>restartPremiere\<close> returns.\<close>

record restart_result =
  success :: bool
  message :: string

text \<open>
  What a run of \<^verbatim>\<open>restartPremiere\<close> meets: the clock when the settle delay begins, the
  rounds of \<^verbatim>\<open>waitForPremiereReady\<close>, what other runs do to the watcher until that wait
  is over, whether \<^verbatim>\<open>premiereConnection\<close> is set at the \<open>k\<close>-th test of the second
  loop, by how much the \<open>k\<close>-th sleep of that loop overruns, and what other runs do to
  the watcher during that sleep.
\<close>

record restart_env =
  clock :: int
  probes :: "nat \<Rightarrow> probe"
  untilReady :: "watcher_op list"
  peerAttached :: "nat \<Rightarrow> bool"
  lag :: "nat \<Rightarrow> nat"
  meanwhile :: "nat \<Rightarrow> watcher_op list"

text \<open>
  The second loop of \<^verbatim>\<open>restartPremiere\<close>, which waits up to 60 s for the panel, and
  \<^verbatim>\<open>restartPremiere\<close> itself. Killing the host, dismissing the crash reporter and
  reopening the project catch their own failures and do not touch the watcher; the settle
  delay lets 3000 ms pass.
\<close>

function awaitPeer ::
  "restart_env \<Rightarrow> int \<Rightarrow> int \<Rightarrow> nat \<Rightarrow> dialog_handler \<Rightarrow> restart_result \<times> dialog_handler" where
  "awaitPeer env start now k w =
    (if now - start < 60000 then
       (if peerAttached env k then
          (\<lparr> restart_result.success = True, message = ''Premiere restarted and CEP panel connected'' \<rparr>,
           stopDialogWatcher w)
        else awaitPeer env start (now + int (lag env k) + 1000) (Suc k)
               (interfere (meanwhile env k) w))
     else
       (\<lparr> restart_result.success = False,
          message = ''Premiere started but CEP panel did not connect within 60s. Make sure to open Window > Extensions > MoshBrosh MCP Bridge'' \<rparr>,
        stopDialogWatcher w))"
  by pat_completeness auto
termination
  by (relation "measure (\<lambda>(env, start, now, k, w). nat (start + 60000 - now))") auto

declare awaitPeer.simps [simp del]

definition restartPremiere :: "restart_env \<Rightarrow> dialog_handler \<Rightarrow> restart_result \<times> dialog_handler" where
  "restartPremiere env w =
    (let w1 = startDialogWatcher w;
         (ready, now) = waitForPremiereReady (probes env) 90000 (clock env + 3000);
         w2 = interfere (untilReady env) w1
     in if \<not> ready then
          (\<lparr> restart_result.success = False, message = ''Premiere did not become ready within 90s'' \<rparr>,
           stopDialogWatcher w2)
        else awaitPeer env now now 0 w2)"

text \<open>The module variable holds the one live interval timer, or none is live.\<close>

definition watcher_consistent :: "dialog_handler \<Rightarrow> bool" where
  "watcher_consistent w = (activeIntervals w = set_option (dialogWatcherInterval w))"

text \<open>No watcher is running; the host comes up at once and the panel connects.\<close>

definition idle_handler :: dialog_handler where
  "idle_handler = \<lparr> dialogWatcherInterval = None, activeIntervals = {}, nextHandle = 0 \<rparr>"

definition prompt_host :: restart_env where
  "prompt_host = \<lparr> clock = 1000000,
      probes = (\<lambda>k. \<lparr> processFound = True, modalDialog = False, mainWindow = True, spent = 200 \<rparr>),
      untilReady = [Stop, Start],
      peerAttached = (\<lambda>k. True), lag = (\<lambda>k. 0), meanwhile = (\<lambda>k. []) \<rparr>"

section \<open>The pipeline runner\<close>

text \<open>
  One entry of \<^verbatim>\<open>results.steps\<close> and the \<^verbatim>\<open>results\<close> object of
  \<^verbatim>\<open>runAutonomousTestCycle\<close>. Beside the report, the model keeps the list of operations
  the run has invoked, in order.
\<close>

record step_record =
  step :: string
  status :: string
  result :: "json option"
  waitMs :: "int option"

record results =
  steps :: "step_record list"
  success :: bool
  error :: "string option"

type_synonym cycle = "results \<times> string list"

text \<open>
  \<^verbatim>\<open>results.steps.push({step, status: "starting"})\<close>, and an update of
  \<^verbatim>\<open>results.steps[results.steps.length - 1]\<close>.
\<close>

definition push_step :: "string \<Rightarrow> int option \<Rightarrow> results \<Rightarrow> results" where
  "push_step nm w r =
     r\<lparr> steps := steps r @ [\<lparr> step = nm, status = ''starting'', result = None, waitMs = w \<rparr>] \<rparr>"

definition update_last :: "(step_record \<Rightarrow> step_record) \<Rightarrow> results \<Rightarrow> results" where
  "update_last f r =
     (case rev (steps r) of
        [] \<Rightarrow> r
      | s # before \<Rightarrow> r\<lparr> steps := rev before @ [f s] \<rparr>)"

definition status_of :: "bool \<Rightarrow> string" where
  "status_of ok = (if ok then ''success'' else ''failed'')"

definition restart_json :: "restart_result \<Rightarrow> json" where
  "restart_json rr =
     JObj [(''success'', JBool (restart_result.success rr)), (''message'', JStr (message rr))]"

text \<open>
  The texts of the two \<^verbatim>\<open>TypeError\<close>s the engine can raise in a step (the wording of V8):
  when \<^verbatim>\<open>.success\<close> is read from \<^verbatim>\<open>undefined\<close> or \<^verbatim>\<open>null\<close>, and when a value with
  no string form is put into a template literal.
\<close>

definition type_error_message :: "json option \<Rightarrow> string" where
  "type_error_message v =
     ''Cannot read properties of '' @ (case v of None \<Rightarrow> ''undefined'' | Some j \<Rightarrow> ''null'') @
     '' (reading '' @ [CHR 0x27] @ ''success'' @ [CHR 0x27] @ '')''"

definition conversion_error_message :: string where
  "conversion_error_message = ''Cannot convert object to primitive value''"

text \<open>
  How an awaited \<^verbatim>\<open>sendToPremmiere\<close> ends: rejected, with the message of the error;
  resolved, with a value (\<open>None\<close> is \<^verbatim>\<open>undefined\<close>); or never settled, as after a
  response whose \<^verbatim>\<open>error\<close> has no string form, which clears the timer and settles
  nothing.
\<close>

datatype reply = Rejected string | Resolved "json option" | Unsettled

text \<open>
  Where a step leaves the run: at a \<^verbatim>\<open>return results\<close>, at the next step, or at an
  \<^verbatim>\<open>await\<close> that never ends.
\<close>

datatype flow = Returns cycle | Proceeds cycle | Awaits cycle

fun at_rest :: "flow \<Rightarrow> cycle" where
  "at_rest (Returns c) = c"
| "at_rest (Proceeds c) = c"
| "at_rest (Awaits c) = c"

text \<open>
  Step 1. \<open>connected\<close> is whether \<^verbatim>\<open>premiereConnection\<close> is set when the run starts,
  \<open>restartResult\<close> what \<^verbatim>\<open>await restartPremiere()\<close> gives.
\<close>

definition ensure_connected :: "bool \<Rightarrow> restart_result \<Rightarrow> cycle \<Rightarrow> flow" where
  "ensure_connected connected restartResult c =
    (if connected then Proceeds c
     else
       (let r1 = push_step ''restart_premiere'' None (fst c);
            ops = snd c @ [''restartPremiere''];
            r2 = update_last (\<lambda>s. s\<lparr> status := status_of (restart_result.success restartResult),
                                      result := Some (restart_json restartResult) \<rparr>) r1
        in if \<not> restart_result.success restartResult
           then Returns (r2\<lparr> error := Some ''Failed to start Premiere'' \<rparr>, ops)
           else Proceeds (r2, ops)))"

text \<open>
  Steps 2, 3 and 5: a command sent through \<^verbatim>\<open>sendToPremmiere\<close>. \<open>reply\<close> is how the
  awaited promise ends. A rejection, a \<^verbatim>\<open>TypeError\<close> on a result that is
  \<^verbatim>\<open>undefined\<close> or \<^verbatim>\<open>null\<close>, and a \<^verbatim>\<open>TypeError\<close> of the template literal that builds
  the error text all end in the \<^verbatim>\<open>catch\<close>, which stores the message of the exception
  and returns. On a promise that never settles the run stays at the \<^verbatim>\<open>await\<close>, the
  step pushed and the command sent.
\<close>

definition remote_step ::
  "(int \<Rightarrow> string) \<Rightarrow> string \<Rightarrow> string \<Rightarrow> string \<Rightarrow> reply \<Rightarrow> cycle \<Rightarrow> flow" where
  "remote_step numberText nm command prefix reply c =
    (let r1 = push_step nm None (fst c);
         ops = snd c @ [command]
     in case reply of
          Unsettled \<Rightarrow> Awaits (r1, ops)
        | Rejected m \<Rightarrow> Returns (r1\<lparr> error := Some m \<rparr>, ops)
        | Resolved None \<Rightarrow> Returns (r1\<lparr> error := Some (type_error_message None) \<rparr>, ops)
        | Resolved (Some JNull) \<Rightarrow>
            Returns (r1\<lparr> error := Some (type_error_message (Some JNull)) \<rparr>, ops)
        | Resolved (Some payload) \<Rightarrow>
            (let r2 = update_last (\<lambda>s. s\<lparr> status := status_of (truthy (jprop payload ''success'')),
                                           result := Some payload \<rparr>) r1
             in if \<not> truthy (jprop payload ''success'')
                then (case String numberText (jprop payload ''error'') of
                        Some text \<Rightarrow> Returns (r2\<lparr> error := Some (prefix @ text) \<rparr>, ops)
                      | None \<Rightarrow> Returns (r2\<lparr> error := Some conversion_error_message \<rparr>, ops))
                else Proceeds (r2, ops)))"

definition wait_for_processing :: "cycle \<Rightarrow> cycle" where
  "wait_for_processing c =
     (update_last (\<lambda>s. s\<lparr> status := ''success'' \<rparr>)
        (push_step ''wait_for_processing'' (Some 20000) (fst c)),
      snd c @ [''wait''])"

text \<open>
  Step 6 polls the export file up to 60 times. One round finds the file absent, or reads
  its size twice, two seconds apart, or fails in \<^verbatim>\<open>statSync\<close> (the file went away after
  \<^verbatim>\<open>existsSync\<close>), which throws into the \<^verbatim>\<open>catch\<close> of the run.
\<close>

datatype sample = Absent | Sizes nat nat | StatError string

datatype poll_result = Ready | NotReady | Threw string

function poll :: "(nat \<Rightarrow> sample) \<Rightarrow> nat \<Rightarrow> poll_result" where
  "poll samples i =
    (if i < 60 then
       (case samples i of
          Absent \<Rightarrow> poll samples (Suc i)
        | Sizes size1 size2 \<Rightarrow>
            if size1 = size2 \<and> 0 < size1 then Ready else poll samples (Suc i)
        | StatError m \<Rightarrow> Threw m)
     else NotReady)"
  by pat_completeness auto
termination
  by (relation "measure (\<lambda>(samples, i). 60 - i)") auto

declare poll.simps [simp del]

text \<open>
  Step 6. \<^verbatim>\<open>analyzeExportedVideo()\<close> catches its own failures and always returns an
  object with a boolean \<^verbatim>\<open>success\<close>; \<open>analysisResult\<close> is that object.
\<close>

definition analyze_export :: "(nat \<Rightarrow> sample) \<Rightarrow> json \<Rightarrow> cycle \<Rightarrow> cycle" where
  "analyze_export samples analysisResult c =
    (let r1 = push_step ''analyze_export'' None (fst c)
     in case poll samples 0 of
          Threw m \<Rightarrow> (r1\<lparr> error := Some m \<rparr>, snd c)
        | NotReady \<Rightarrow>
            ((update_last (\<lambda>s. s\<lparr> status := ''failed'' \<rparr>) r1)
               \<lparr> error := Some ''Export file not ready after 60s'' \<rparr>, snd c)
        | Ready \<Rightarrow>
            ((update_last (\<lambda>s. s\<lparr> status := status_of (truthy (jprop analysisResult ''success'')),
                                   result := Some analysisResult \<rparr>) r1)
               \<lparr> success := truthy (jprop analysisResult ''success'') \<rparr>,
             snd c @ [''analyzeExportedVideo'']))"

text \<open>
  What a run of the pipeline meets: the connection state at its start, the outcome of
  each operation it may invoke, and the text the engine gives for a number.
  \<open>test_cycle\<close> is the body of \<^verbatim>\<open>runAutonomousTestCycle\<close>, step by step;
  \<open>runAutonomousTestCycle\<close> is the report the run ends with, beside the operations it
  has invoked, and \<open>returns\<close> tells whether the run hands that report to its caller
  or stays at an \<^verbatim>\<open>await\<close> for ever.
\<close>

record cycle_env =
  connected :: bool
  restartResult :: restart_result
  projectReply :: reply
  effectReply :: reply
  exportReply :: reply
  samples :: "nat \<Rightarrow> sample"
  analysisResult :: json
  numberText :: "int \<Rightarrow> string"

definition test_cycle :: "cycle_env \<Rightarrow> flow" where
  "test_cycle env =
    (case ensure_connected (connected env) (restartResult env)
            (\<lparr> steps = [], success = False, error = None \<rparr>, []) of
       Returns c \<Rightarrow> Returns c
     | Awaits c \<Rightarrow> Awaits c
     | Proceeds c1 \<Rightarrow>
    (case remote_step (numberText env) ''open_project'' ''open_test_project'' ''Failed to open project: ''
            (projectReply env) c1 of
       Returns c \<Rightarrow> Returns c
     | Awaits c \<Rightarrow> Awaits c
     | Proceeds c2 \<Rightarrow>
    (case remote_step (numberText env) ''apply_effect'' ''apply_effect'' ''Failed to apply effect: ''
            (effectReply env) c2 of
       Returns c \<Rightarrow> Returns c
     | Awaits c \<Rightarrow> Awaits c
     | Proceeds c3 \<Rightarrow>
    (case remote_step (numberText env) ''export_sequence'' ''export_sequence'' ''Failed to export: ''
            (exportReply env) (wait_for_processing c3) of
       Returns c \<Rightarrow> Returns c
     | Awaits c \<Rightarrow> Awaits c
     | Proceeds c5 \<Rightarrow> Returns (analyze_export (samples env) (analysisResult env) c5)))))"

definition runAutonomousTestCycle :: "cycle_env \<Rightarrow> cycle" where
  "runAutonomousTestCycle env = at_rest (test_cycle env)"

definition returns :: "cycle_env \<Rightarrow> bool" where
  "returns env = (case test_cycle env of Returns c \<Rightarrow> True | _ \<Rightarrow> False)"

text \<open>
  The panel is connected and \<^verbatim>\<open>open_test_project\<close> answers \<^verbatim>\<open>{success: false, error:
  "No project"}\<close>.
\<close>

definition failing_open_env :: cycle_env where
  "failing_open_env =
    \<lparr> connected = True,
      restartResult = \<lparr> restart_result.success = True, message = [] \<rparr>,
      projectReply = Resolved (Some (JObj [(''success'', JBool False), (''error'', JStr ''No project'')])),
      effectReply = Resolved (Some (JObj [(''success'', JBool True)])),
      exportReply = Resolved (Some (JObj [(''success'', JBool True)])),
      samples = (\<lambda>i. Sizes 4096 4096),
      analysisResult = JObj [(''success'', JBool True)],
      numberText = int_to_string \<rparr>"

text \<open>
  A reply that carries a payload whose \<^verbatim>\<open>success\<close> is falsy, and one whose
  \<^verbatim>\<open>success\<close> is truthy; whether step 1 lets the run go on; the step names and the
  operations of a full run, in order; what it means for a run to stop after its
  \<open>n\<close>-th planned step with the message \<open>msg\<close>: the run returns, the report and the
  operations invoked are the first \<open>n\<close> planned ones and no more, \<^verbatim>\<open>success\<close> is false
  and \<^verbatim>\<open>error\<close> is the message; and what it means for a run to wait in its \<open>n\<close>-th
  planned step: the run does not return, the report and the operations invoked are the
  first \<open>n\<close> planned ones and no more, and the last step still has the status
  \<^verbatim>\<open>starting\<close>.
\<close>

definition declined :: "reply \<Rightarrow> json \<Rightarrow> bool" where
  "declined reply p \<longleftrightarrow> reply = Resolved (Some p) \<and> p \<noteq> JNull \<and> \<not> truthy (jprop p ''success'')"

definition accepted :: "reply \<Rightarrow> bool" where
  "accepted reply =
     (case reply of Resolved (Some p) \<Rightarrow> p \<noteq> JNull \<and> truthy (jprop p ''success'') | _ \<Rightarrow> False)"

definition started :: "cycle_env \<Rightarrow> bool" where
  "started env \<longleftrightarrow> connected env \<or> restart_result.success (restartResult env)"

definition planned :: "cycle_env \<Rightarrow> string list" where
  "planned env =
     (if connected env then [] else [''restart_premiere'']) @
     [''open_project'', ''apply_effect'', ''wait_for_processing'', ''export_sequence'',
      ''analyze_export'']"

definition planned_ops :: "cycle_env \<Rightarrow> string list" where
  "planned_ops env =
     (if connected env then [] else [''restartPremiere'']) @
     [''open_test_project'', ''apply_effect'', ''wait'', ''export_sequence'',
      ''analyzeExportedVideo'']"

definition first_step :: "cycle_env \<Rightarrow> nat" where
  "first_step env = (if connected env then 0 else 1)"

definition stops_after :: "cycle_env \<Rightarrow> nat \<Rightarrow> string \<Rightarrow> bool" where
  "stops_after env n msg \<longleftrightarrow>
     returns env \<and>
     map step (steps (fst (runAutonomousTestCycle env))) = take n (planned env) \<and>
     snd (runAutonomousTestCycle env) = take n (planned_ops env) \<and>
     \<not> success (fst (runAutonomousTestCycle env)) \<and>
     error (fst (runAutonomousTestCycle env)) = Some msg"

definition waits_in :: "cycle_env \<Rightarrow> nat \<Rightarrow> bool" where
  "waits_in env n \<longleftrightarrow>
     \<not> returns env \<and>
     map step (steps (fst (runAutonomousTestCycle env))) = take n (planned env) \<and>
     snd (runAutonomousTestCycle env) = take n (planned_ops env) \<and>
     \<not> success (fst (runAutonomousTestCycle env)) \<and>
     error (fst (runAutonomousTestCycle env)) = None \<and>
     status (last (steps (fst (runAutonomousTestCycle env)))) = ''starting''"

definition marked_failed :: "cycle_env \<Rightarrow> bool" where
  "marked_failed env \<longleftrightarrow> status (last (steps (fst (runAutonomousTestCycle env)))) = ''failed''"

text \<open>
  The ways a command fails, with the message each leaves in \<^verbatim>\<open>error\<close>: its reply is
  declined and the message is the prefix of the step followed by the string form of the
  \<^verbatim>\<open>error\<close> of the reply; its reply is declined and that \<^verbatim>\<open>error\<close> has no string form;
  its promise is rejected; its promise resolves with \<^verbatim>\<open>undefined\<close> or \<^verbatim>\<open>null\<close>.
\<close>

definition gives_up :: "(int \<Rightarrow> string) \<Rightarrow> string \<Rightarrow> reply \<Rightarrow> string \<Rightarrow> bool" where
  "gives_up nt prefix reply msg \<longleftrightarrow>
     (\<exists>p text. declined reply p \<and> String nt (jprop p ''error'') = Some text \<and>
               msg = prefix @ text) \<or>
     (\<exists>p. declined reply p \<and> String nt (jprop p ''error'') = None \<and>
          msg = conversion_error_message) \<or>
     reply = Rejected msg \<or>
     (reply = Resolved None \<and> msg = type_error_message None) \<or>
     (reply = Resolved (Some JNull) \<and> msg = type_error_message (Some JNull))"

text \<open>
  The shape of every report, returned or not: its steps are the first planned ones, and
  the operations invoked are the first planned ones, at most as many as the steps.
\<close>

definition follows_plan :: "cycle_env \<Rightarrow> bool" where
  "follows_plan env \<longleftrightarrow>
     map step (steps (fst (runAutonomousTestCycle env))) =
       take (length (steps (fst (runAutonomousTestCycle env)))) (planned env) \<and>
     snd (runAutonomousTestCycle env) =
       take (length (snd (runAutonomousTestCycle env))) (planned_ops env) \<and>
     length (snd (runAutonomousTestCycle env)) \<le> length (steps (fst (runAutonomousTestCycle env)))"

text \<open>
  The test of the poll on one round, whether a round failed in \<^verbatim>\<open>statSync\<close>, and a
  run that gets as far as the poll.
\<close>

fun sizes_stable :: "sample \<Rightarrow> bool" where
  "sizes_stable (Sizes size1 size2) = (size1 = size2 \<and> 0 < size1)"
| "sizes_stable _ = False"

fun is_stat_error :: "sample \<Rightarrow> bool" where
  "is_stat_error (StatError m) = True"
| "is_stat_error _ = False"

definition reaches_poll :: "cycle_env \<Rightarrow> bool" where
  "reaches_poll env \<longleftrightarrow>
     started env \<and> accepted (projectReply env) \<and> accepted (effectReply env) \<and>
     accepted (exportReply env)"

text \<open>
  Every command succeeds, and the export file keeps growing: each round reads two
  different sizes.
\<close>

definition growing_export_env :: cycle_env where
  "growing_export_env =
    \<lparr> connected = True,
      restartResult = \<lparr> restart_result.success = True, message = [] \<rparr>,
      projectReply = Resolved (Some (JObj [(''success'', JBool True)])),
      effectReply = Resolved (Some (JObj [(''success'', JBool True)])),
      exportReply = Resolved (Some (JObj [(''success'', JBool True)])),
      samples = (\<lambda>i. Sizes (1000 * i) (1000 * i + 500)),
      analysisResult = JObj [(''success'', JBool True)],
      numberText = int_to_string \<rparr>"

text \<open>
  The run so far follows the plan: its first \<open>n\<close> steps are in the report, their
  operations have been invoked, and nothing has failed.
\<close>

definition on_plan :: "cycle_env \<Rightarrow> nat \<Rightarrow> cycle \<Rightarrow> bool" where
  "on_plan env n c \<longleftrightarrow>
     map step (steps (fst c)) = take n (planned env) \<and> snd c = take n (planned_ops env) \<and>
     \<not> success (fst c) \<and> error (fst c) = None"

section \<open>Every run keeps the invariant\<close>

lemma channel_inv_init: "channel_inv init"
  by (auto simp add: channel_inv_def req_ok_def init_def settlements_def)

lemma map_key_Some: "map_key k = Some n \<Longrightarrow> k = Some (JNum (int n))"
  by (cases k rule: map_key.cases) (auto split: if_splits)

lemma req_ok_send:
  assumes "channel_inv st"
  shows "req_ok (snd (sendToPremmiere st c p t)) r"
proof (cases "premiereConnection st")
  case None
  then show ?thesis using assms by (simp add: sendToPremmiere_def channel_inv_def)
next
  case (Some ws)
  have a: "req_ok st r" and b: "req_ok st (Suc (requestIdCounter st))"
    using assms by (simp_all add: channel_inv_def)
  show ?thesis
  proof (cases "r = Suc (requestIdCounter st)")
    case True
    with b Some show ?thesis
      by (auto simp add: sendToPremmiere_def req_ok_def settlements_def Let_def
               split: option.splits if_splits)
  next
    case False
    with a Some show ?thesis
      by (auto simp add: sendToPremmiere_def req_ok_def settlements_def Let_def
               split: option.splits if_splits)
  qed
qed

lemma req_ok_timer:
  assumes "channel_inv st"
  shows "req_ok (timerFired st q) r"
proof -
  have a: "req_ok st r" and b: "req_ok st q"
    using assms by (simp_all add: channel_inv_def)
  show ?thesis
  proof (cases "timers st q")
    case None
    with a show ?thesis by (simp add: timerFired_def)
  next
    case (Some t)
    show ?thesis
    proof (cases "r = q")
      case True
      with b Some show ?thesis
        by (auto simp add: timerFired_def req_ok_def settlements_def)
    next
      case False
      with a Some show ?thesis
        by (auto simp add: timerFired_def req_ok_def settlements_def
                 split: option.splits if_splits)
    qed
  qed
qed

lemma pending_get_key:
  assumes "channel_inv st" and "pending_get st k = Some q"
  shows "k = Some (JNum (int q)) \<and> map_key k = Some q \<and> pendingRequests st q = Some q \<and>
         settlements st q = []"
proof -
  from assms(2) obtain n where n: "map_key k = Some n" and p: "pendingRequests st n = Some q"
    by (auto simp: pending_get_def split: option.splits)
  have "req_ok st n" using assms(1) by (simp add: channel_inv_def)
  with p have "q = n \<and> settlements st n = []"
    by (auto simp: req_ok_def split: option.splits)
  with n p map_key_Some [OF n] show ?thesis by simp
qed

lemma onMessage_cases:
  "onMessage st data now = st \<or>
   onMessage st data now = st\<lparr>lastHeartbeat := now\<rparr> \<or>
   (\<exists>msg q. data = Some msg \<and> jprop msg ''type'' = Some (JStr ''response'') \<and>
      pending_get st (jprop msg ''requestId'') = Some q \<and>
      ((response_outcome msg = None \<and>
        onMessage st data now = st\<lparr>timers := (timers st)(q := None)\<rparr>) \<or>
       (\<exists>out. response_outcome msg = Some out \<and>
          onMessage st data now =
            pending_delete (st\<lparr>timers := (timers st)(q := None),
                               settled := settled st @ [(q, out)]\<rparr>)
              (jprop msg ''requestId''))))"
  by (auto simp: onMessage_def pending_resolve_def split: option.splits json.splits)

lemma req_ok_heartbeat: "req_ok (st\<lparr>lastHeartbeat := now\<rparr>) r = req_ok st r"
  by (auto simp add: req_ok_def settlements_def split: option.splits)

lemma req_ok_thrown:
  assumes "channel_inv st" and "pending_get st k = Some q"
  shows "req_ok (st\<lparr>timers := (timers st)(q := None)\<rparr>) r"
proof -
  have a: "req_ok st r" and b: "req_ok st q"
    using assms by (simp_all add: channel_inv_def)
  from pending_get_key [OF assms] have p: "pendingRequests st q = Some q"
    and s: "settlements st q = []" by simp_all
  show ?thesis
  proof (cases "r = q")
    case True
    with b p s show ?thesis
      by (auto simp add: req_ok_def settlements_def split: option.splits)
  next
    case False
    with a show ?thesis
      by (auto simp add: req_ok_def settlements_def split: option.splits if_splits)
  qed
qed

lemma req_ok_resolved:
  assumes "channel_inv st" and "pending_get st k = Some q"
  shows "req_ok (pending_delete (st\<lparr>timers := (timers st)(q := None),
                                    settled := settled st @ [(q, out)]\<rparr>) k) r"
proof -
  have a: "req_ok st r" and b: "req_ok st q"
    using assms by (simp_all add: channel_inv_def)
  from pending_get_key [OF assms] have k: "map_key k = Some q"
    and p: "pendingRequests st q = Some q" and s: "settlements st q = []" by simp_all
  show ?thesis
  proof (cases "r = q")
    case True
    with b k p s show ?thesis
      by (auto simp add: pending_delete_def req_ok_def settlements_def split: option.splits)
  next
    case False
    with a k show ?thesis
      by (auto simp add: pending_delete_def req_ok_def settlements_def
               split: option.splits if_splits)
  qed
qed

lemma channel_inv_message:
  assumes "channel_inv st"
  shows "channel_inv (onMessage st data now)"
  using onMessage_cases [of st data now] assms req_ok_resolved [OF assms]
    req_ok_thrown [OF assms]
  by (auto simp: channel_inv_def req_ok_heartbeat)

lemma req_ok_other:
  assumes "timers st' = timers st" and "pendingRequests st' = pendingRequests st"
    and "requestIdCounter st' = requestIdCounter st" and "settled st' = settled st"
  shows "req_ok st' r = req_ok st r"
  using assms by (auto simp add: req_ok_def settlements_def split: option.splits)

lemma channel_inv_other:
  assumes "channel_inv st" and "timers st' = timers st"
    and "pendingRequests st' = pendingRequests st"
    and "requestIdCounter st' = requestIdCounter st" and "settled st' = settled st"
  shows "channel_inv st'"
  unfolding channel_inv_def
proof
  fix r
  have "req_ok st r" using assms(1) by (simp add: channel_inv_def)
  then show "req_ok st' r" using req_ok_other [OF assms(2-5), of r] by simp
qed

lemma channel_inv_step:
  assumes "channel_inv st"
  shows "channel_inv (react st e)"
proof (cases e)
  case (Connection ws now)
  have "channel_inv (onConnection st ws now)"
    by (rule channel_inv_other [OF assms]) (simp_all add: onConnection_def)
  with Connection show ?thesis by simp
next
  case (Message ws data now)
  then show ?thesis using assms channel_inv_message [OF assms] by simp
next
  case (Close ws)
  have "channel_inv (onClose st ws)"
    by (rule channel_inv_other [OF assms]) (simp_all add: onClose_def)
  with Close assms show ?thesis by simp
next
  case (CheckForCrash isRunning now dir now')
  have "channel_inv (checkForCrash st isRunning now dir now')"
    by (rule channel_inv_other [OF assms]) (simp_all add: checkForCrash_def)
  with CheckForCrash show ?thesis by simp
next
  case (Send command params timeout)
  then show ?thesis using req_ok_send [OF assms] by (simp add: channel_inv_def)
next
  case (TimerFired q)
  then show ?thesis using req_ok_timer [OF assms] by (simp add: channel_inv_def)
qed

lemma run_snoc: "run st (evs @ [e]) = react (run st evs) e"
  by (simp add: run_def)

lemma run_Cons: "run st (e # evs) = run (react st e) evs"
  by (simp add: run_def)

lemma run_append: "run st (evs @ evs') = run (run st evs) evs'"
  by (simp add: run_def)

lemma channel_inv_run: "channel_inv st \<Longrightarrow> channel_inv (run st evs)"
  by (induction evs rule: rev_induct) (simp_all add: run_snoc channel_inv_step run_def)

lemma explained_mono: "explained evs p \<Longrightarrow> explained (evs @ [e]) p"
  by (auto simp: explained_def)

lemma settled_step:
  assumes "channel_inv st"
  shows "settled (react st e) = settled st \<or>
         (\<exists>q t. settled (react st e) = settled st @ [(q, Inl (Timeout t))]) \<or>
         (\<exists>q msg out. is_response_for q msg e \<and> response_outcome msg = Some out \<and>
                  settled (react st e) = settled st @ [(q, out)])"
proof (cases e)
  case (Message ws data now)
  show ?thesis
  proof (cases "ws \<in> openSockets st")
    case False
    with Message show ?thesis by simp
  next
    case True
    from onMessage_cases [of st data now] show ?thesis
    proof (elim disjE exE conjE)
      fix msg q out
      assume d: "data = Some msg" and ty: "jprop msg ''type'' = Some (JStr ''response'')"
        and g: "pending_get st (jprop msg ''requestId'') = Some q"
        and o: "response_outcome msg = Some out"
        and m: "onMessage st data now =
                pending_delete (st\<lparr>timers := (timers st)(q := None),
                                   settled := settled st @ [(q, out)]\<rparr>)
                  (jprop msg ''requestId'')"
      from pending_get_key [OF assms g]
      have k: "jprop msg ''requestId'' = Some (JNum (int q))" by simp
      have "settled (onMessage st data now) = settled st @ [(q, out)]"
        using m by (simp add: pending_delete_def split: option.splits)
      moreover have "is_response_for q msg e" using Message d ty k by simp
      ultimately show ?thesis using Message True o by auto
    qed (use Message True in auto)
  qed
next
  case (Connection ws now)
  then show ?thesis by (simp add: onConnection_def)
next
  case (Close ws)
  then show ?thesis by (simp add: onClose_def)
next
  case (CheckForCrash isRunning now dir now')
  then show ?thesis by (simp add: checkForCrash_def)
next
  case (Send command params timeout)
  then show ?thesis by (simp add: sendToPremmiere_def Let_def split: option.splits)
next
  case (TimerFired q)
  then show ?thesis by (simp add: timerFired_def split: option.splits)
qed

lemma settled_explained:
  "\<forall>p \<in> set (settled (run init evs)). explained evs p"
proof (induction evs rule: rev_induct)
  case Nil
  then show ?case by (simp add: run_def init_def)
next
  case (snoc e evs)
  have inv: "channel_inv (run init evs)" by (rule channel_inv_run [OF channel_inv_init])
  have old: "\<forall>p \<in> set (settled (run init evs)). explained (evs @ [e]) p"
    using snoc explained_mono by blast
  from settled_step [OF inv, of e] show ?case
  proof (elim disjE exE conjE)
    assume "settled (react (run init evs) e) = settled (run init evs)"
    with old show ?thesis by (simp add: run_snoc)
  next
    fix q t
    assume "settled (react (run init evs) e) = settled (run init evs) @ [(q, Inl (Timeout t))]"
    with old show ?thesis by (simp add: run_snoc explained_def)
  next
    fix q msg out
    assume r: "is_response_for q msg e" and o: "response_outcome msg = Some out"
      and "settled (react (run init evs) e) = settled (run init evs) @ [(q, out)]"
    moreover from r o have "explained (evs @ [e]) (q, out)"
      unfolding explained_def by auto
    ultimately show ?thesis using old by (simp add: run_snoc)
  qed
qed

lemma counter_step: "requestIdCounter st \<le> requestIdCounter (react st e)"
proof (cases e)
  case (Message ws data now)
  from onMessage_cases [of st data now]
  have "requestIdCounter (onMessage st data now) = requestIdCounter st"
    by (auto simp: pending_delete_def split: option.splits)
  with Message show ?thesis by simp
qed (simp_all add: onConnection_def onClose_def checkForCrash_def sendToPremmiere_def
       timerFired_def Let_def split: option.splits)

lemma counter_run: "requestIdCounter st \<le> requestIdCounter (run st evs)"
proof (induction evs rule: rev_induct)
  case Nil
  then show ?case by (simp add: run_def)
next
  case (snoc e evs)
  then show ?case using counter_step [of "run st evs" e] by (simp add: run_snoc)
qed

lemma send_result:
  "fst (sendToPremmiere st c p t) = Inr r \<Longrightarrow>
     r = Suc (requestIdCounter st) \<and> requestIdCounter (snd (sendToPremmiere st c p t)) = r"
  by (auto simp: sendToPremmiere_def Let_def split: option.splits)

lemma assigned_ids_Cons:
  "assigned_ids st (e # evs) = assigned_ids (react st e) evs \<or>
   (\<exists>c p t q. e = Send c p t \<and> fst (sendToPremmiere st c p t) = Inr q \<and>
      assigned_ids st (e # evs) = q # assigned_ids (react st e) evs)"
  by (cases e) (auto split: sum.splits)

lemma assigned_ids_bounds:
  "r \<in> set (assigned_ids st evs) \<Longrightarrow>
     requestIdCounter st < r \<and> r \<le> requestIdCounter (run st evs)"
proof (induction evs arbitrary: st)
  case Nil
  then show ?case by simp
next
  case (Cons e evs)
  let ?st' = "react st e"
  have le: "requestIdCounter st \<le> requestIdCounter ?st'" by (rule counter_step)
  from assigned_ids_Cons [of st e evs] show ?case
  proof (elim disjE exE conjE)
    assume "assigned_ids st (e # evs) = assigned_ids ?st' evs"
    with Cons.prems have "r \<in> set (assigned_ids ?st' evs)" by simp
    from Cons.IH [OF this] le show ?thesis by (simp add: run_Cons)
  next
    fix c p t q
    assume e: "e = Send c p t" and q: "fst (sendToPremmiere st c p t) = Inr q"
      and ids: "assigned_ids st (e # evs) = q # assigned_ids ?st' evs"
    from send_result [OF q] e have q': "q = Suc (requestIdCounter st)"
      and c: "requestIdCounter ?st' = q" by simp_all
    from Cons.prems ids have "r = q \<or> r \<in> set (assigned_ids ?st' evs)" by simp
    then show ?thesis
    proof
      assume "r = q"
      with q' c counter_run [of ?st' evs] show ?thesis by (simp add: run_Cons)
    next
      assume "r \<in> set (assigned_ids ?st' evs)"
      from Cons.IH [OF this] le show ?thesis by (simp add: run_Cons)
    qed
  qed
qed

lemma assigned_ids_increasing: "sorted_wrt (<) (assigned_ids st evs)"
proof (induction evs arbitrary: st)
  case Nil
  then show ?case by simp
next
  case (Cons e evs)
  from assigned_ids_Cons [of st e evs] show ?case
  proof (elim disjE exE conjE)
    assume "assigned_ids st (e # evs) = assigned_ids (react st e) evs"
    with Cons.IH [of "react st e"] show ?thesis by simp
  next
    fix c p t q
    assume e: "e = Send c p t" and q: "fst (sendToPremmiere st c p t) = Inr q"
      and ids: "assigned_ids st (e # evs) = q # assigned_ids (react st e) evs"
    from send_result [OF q] e have c: "requestIdCounter (react st e) = q" by simp
    have "\<forall>r \<in> set (assigned_ids (react st e) evs). q < r"
      using assigned_ids_bounds c by metis
    with Cons.IH [of "react st e"] ids show ?thesis by simp
  qed
qed

lemma settled_step_grows: "\<exists>xs. settled (react st e) = settled st @ xs"
proof (cases e)
  case (Message ws data now)
  from onMessage_cases [of st data now]
  have "\<exists>xs. settled (onMessage st data now) = settled st @ xs"
    by (auto simp: pending_delete_def split: option.splits)
  with Message show ?thesis by simp
next
  case (Connection ws now)
  then show ?thesis by (simp add: onConnection_def)
next
  case (Close ws)
  then show ?thesis by (simp add: onClose_def)
next
  case (CheckForCrash isRunning now dir now')
  then show ?thesis by (simp add: checkForCrash_def)
next
  case (Send command params timeout)
  then show ?thesis by (simp add: sendToPremmiere_def Let_def split: option.splits)
next
  case (TimerFired q)
  then show ?thesis by (simp add: timerFired_def split: option.splits)
qed

lemma settled_run_grows: "\<exists>xs. settled (run st evs) = settled st @ xs"
proof (induction evs rule: rev_induct)
  case Nil
  then show ?case by (simp add: run_def)
next
  case (snoc e evs)
  then obtain xs where xs: "settled (run st evs) = settled st @ xs" by blast
  from settled_step_grows [of "run st evs" e]
  obtain ys where "settled (react (run st evs) e) = settled (run st evs) @ ys" by blast
  with xs show ?case by (simp add: run_snoc)
qed

lemma settlements_at_most_one: "length (settlements (run init evs) r) \<le> 1"
proof -
  have "channel_inv (run init evs)" by (rule channel_inv_run [OF channel_inv_init])
  then have "req_ok (run init evs) r" by (simp add: channel_inv_def)
  then show ?thesis by (auto simp: req_ok_def split: option.splits if_splits)
qed

lemma settlement_final:
  assumes "settlements (run init evs) r = [out]"
  shows "settlements (run init (evs @ evs')) r = [out]"
proof -
  let ?a = "run init evs" and ?b = "run init (evs @ evs')"
  from settled_run_grows [of ?a evs']
  obtain xs where xs: "settled ?b = settled ?a @ xs" by (auto simp: run_append)
  then have app: "settlements ?b r = [out] @ map snd (filter (\<lambda>p. fst p = r) xs)"
    using assms by (simp add: settlements_def)
  from settlements_at_most_one [of "evs @ evs'" r] app show ?thesis by simp
qed

section \<open>Settlements of the channel\<close>

lemma channel_settles_at_most_once:
  "sorted_wrt (<) (assigned_ids init evs) \<and> distinct (assigned_ids init evs) \<and>
   (\<forall>r. length (settlements (run init evs) r) \<le> 1 \<and>
        (\<forall>out \<in> set (settlements (run init evs) r).
            explained evs (r, out) \<and>
            (\<forall>evs'. settlements (run init (evs @ evs')) r = [out])))"
proof (intro conjI allI ballI)
  show inc: "sorted_wrt (<) (assigned_ids init evs)" by (rule assigned_ids_increasing)
  then show "distinct (assigned_ids init evs)" by (simp add: strict_sorted_iff)
next
  fix r
  show "length (settlements (run init evs) r) \<le> 1" by (rule settlements_at_most_one)
next
  fix r out
  assume o: "out \<in> set (settlements (run init evs) r)"
  then have "(r, out) \<in> set (settled (run init evs))" by (auto simp: settlements_def)
  with settled_explained show "explained evs (r, out)" by blast
next
  fix r out evs'
  assume o: "out \<in> set (settlements (run init evs) r)"
  with settlements_at_most_one [of evs r] have "settlements (run init evs) r = [out]"
    by (cases "settlements (run init evs) r") auto
  then show "settlements (run init (evs @ evs')) r = [out]" by (rule settlement_final)
qed

lemma no_stuck_step:
  assumes "channel_inv st" and "no_stuck st" and "frame_ok e"
  shows "no_stuck (react st e)"
proof (cases e)
  case (Message ws data now)
  show ?thesis
  proof (cases "ws \<in> openSockets st")
    case False
    with Message assms(2) show ?thesis by simp
  next
    case True
    from onMessage_cases [of st data now] have "no_stuck (onMessage st data now)"
    proof (elim disjE exE conjE)
      fix msg q
      assume "data = Some msg" and "response_outcome msg = None"
      with assms(3) Message show ?thesis by simp
    next
      fix msg q out
      assume g: "pending_get st (jprop msg ''requestId'') = Some q"
        and m: "onMessage st data now =
                pending_delete (st\<lparr>timers := (timers st)(q := None),
                                   settled := settled st @ [(q, out)]\<rparr>)
                  (jprop msg ''requestId'')"
      from pending_get_key [OF assms(1) g] have "map_key (jprop msg ''requestId'') = Some q"
        by simp
      with m assms(2) show ?thesis by (auto simp: no_stuck_def pending_delete_def)
    qed (use assms(2) in \<open>auto simp: no_stuck_def\<close>)
    with Message True show ?thesis by simp
  qed
next
  case (Connection ws now)
  with assms(2) show ?thesis by (simp add: no_stuck_def onConnection_def)
next
  case (Close ws)
  with assms(2) show ?thesis by (simp add: no_stuck_def onClose_def)
next
  case (CheckForCrash isRunning now dir now')
  with assms(2) show ?thesis by (simp add: no_stuck_def checkForCrash_def)
next
  case (Send command params timeout)
  with assms(2) show ?thesis
    by (auto simp: no_stuck_def sendToPremmiere_def Let_def split: option.splits)
next
  case (TimerFired q)
  with assms(2) show ?thesis
    by (auto simp: no_stuck_def timerFired_def split: option.splits)
qed

lemma no_stuck_run: "list_all frame_ok evs \<Longrightarrow> no_stuck (run init evs)"
proof (induction evs rule: rev_induct)
  case Nil
  then show ?case by (simp add: run_def init_def no_stuck_def)
next
  case (snoc e evs)
  have "channel_inv (run init evs)" by (rule channel_inv_run [OF channel_inv_init])
  with snoc show ?case using no_stuck_step [of "run init evs" e] by (simp add: run_snoc)
qed

lemma well_formed_runs_settle_once:
  assumes "list_all frame_ok evs" and "r \<in> set (assigned_ids init evs)"
  shows "case timers (run init evs) r of
           Some t \<Rightarrow> settlements (run init evs) r = [] \<and>
                     settlements (timerFired (run init evs) r) r = [Inl (Timeout t)]
         | None \<Rightarrow> (\<exists>out. settlements (run init evs) r = [out] \<and> explained evs (r, out) \<and>
                     (\<forall>evs'. settlements (run init (evs @ evs')) r = [out]))"
proof -
  let ?st = "run init evs"
  from assigned_ids_bounds [OF assms(2)] have range: "0 < r \<and> r \<le> requestIdCounter ?st" by simp
  have "channel_inv ?st" by (rule channel_inv_run [OF channel_inv_init])
  then have ok: "req_ok ?st r" by (simp add: channel_inv_def)
  show ?thesis
  proof (cases "timers ?st r")
    case (Some t)
    with ok have "settlements ?st r = []" by (simp add: req_ok_def)
    moreover from this Some have "settlements (timerFired ?st r) r = [Inl (Timeout t)]"
      by (simp add: timerFired_def settlements_def)
    ultimately show ?thesis using Some by simp
  next
    case None
    with no_stuck_run [OF assms(1)] have "pendingRequests ?st r = None"
      by (auto simp: no_stuck_def)
    with ok range None have "length (settlements ?st r) = 1" by (simp add: req_ok_def)
    then obtain out where out: "settlements ?st r = [out]"
      by (cases "settlements ?st r") auto
    with channel_settles_at_most_once [of evs]
    have "explained evs (r, out) \<and> (\<forall>evs'. settlements (run init (evs @ evs')) r = [out])"
      by simp
    with None out show ?thesis by simp
  qed
qed

text \<open>
  C1. The claim does not hold of the code. In this run request 1 is handed out and the
  response bearing its id arrives before the timeout, yet the promise of request 1 is not
  settled and no timeout will settle it: the closure cleared the timer and then threw in
  \<^verbatim>\<open>new Error(msg.error)\<close>, so the firing of the timer is no longer pending and the entry
  is still in the map. In every run the ids are strictly increasing and no promise is
  settled twice or from a response bearing another id (\<open>channel_settles_at_most_once\<close>),
  and in runs without such a frame every promise is settled exactly once or still waiting
  with its timer armed (\<open>well_formed_runs_settle_once\<close>).
\<close>

theorem unprintable_error_leaves_request_unsettled:
  "assigned_ids init stuck_trace = [1] \<and>
   is_response_for 1 unprintable_error_response (Message 1 (Some unprintable_error_response) 2000) \<and>
   timers (run init stuck_trace) 1 = None \<and>
   settlements (run init stuck_trace) 1 = [] \<and>
   pendingRequests (run init stuck_trace) 1 = Some 1 \<and>
   settlements (timerFired (run init stuck_trace) 1) 1 = []"
  by (simp add: stuck_trace_def unprintable_error_response_def run_def settlements_def
        sendToPremmiere_def onConnection_def onMessage_def timerFired_def pending_get_def
        pending_resolve_def response_outcome_def init_def Let_def)

section \<open>Sending without a connection\<close>

text \<open>
  C2. A send made while no peer connection is attached fails at once with
  \<open>NotConnected\<close>: it returns the error instead of a pending request, and no timer has been
  armed, no request queued and no frame sent.
\<close>

theorem send_not_connected_fails_immediately:
  "premiereConnection st = None \<Longrightarrow>
     fst (sendToPremmiere st command params timeout) = Inl NotConnected \<and>
     timers (snd (sendToPremmiere st command params timeout)) = timers st \<and>
     pendingRequests (snd (sendToPremmiere st command params timeout)) = pendingRequests st \<and>
     sent (snd (sendToPremmiere st command params timeout)) = sent st"
  by (simp add: sendToPremmiere_def)

theorem send_not_connected_fails_immediately_witness:
  "premiereConnection init = None \<and>
   fst (sendToPremmiere init ''apply_effect'' None None) = Inl NotConnected \<and>
   timers (snd (sendToPremmiere init ''apply_effect'' None None)) = timers init \<and>
   pendingRequests (snd (sendToPremmiere init ''apply_effect'' None None)) = pendingRequests init \<and>
   sent (snd (sendToPremmiere init ''apply_effect'' None None)) = sent init"
proof -
  have h: "premiereConnection init = None" by (simp add: init_def)
  show ?thesis
    using h send_not_connected_fails_immediately [OF h, of "''apply_effect''" None None]
    by simp
qed

text \<open>
  C10. A send that fails with \<open>NotConnected\<close> leaves the whole state as it was: the
  counter is not incremented, the pending-request map gets no entry and no timer exists
  that did not exist before.
\<close>

theorem send_not_connected_leaves_state:
  "premiereConnection st = None \<Longrightarrow>
     snd (sendToPremmiere st command params timeout) = st \<and>
     requestIdCounter (snd (sendToPremmiere st command params timeout)) = requestIdCounter st \<and>
     dom (pendingRequests (snd (sendToPremmiere st command params timeout))) = dom (pendingRequests st) \<and>
     dom (timers (snd (sendToPremmiere st command params timeout))) = dom (timers st)"
  by (simp add: sendToPremmiere_def)

theorem send_not_connected_leaves_state_witness:
  "premiereConnection init = None \<and>
   snd (sendToPremmiere init ''export_sequence'' (Some (JObj [])) (Some 5000)) = init \<and>
   requestIdCounter (snd (sendToPremmiere init ''export_sequence'' (Some (JObj [])) (Some 5000))) = 0"
proof -
  have h: "premiereConnection init = None" by (simp add: init_def)
  have c: "requestIdCounter init = 0" by (simp add: init_def)
  show ?thesis
    using h c send_not_connected_leaves_state [OF h, of "''export_sequence''" "Some (JObj [])" "Some 5000"]
    by simp
qed

section \<open>Inbound responses\<close>

lemma onMessage_response:
  assumes "jprop msg ''type'' = Some (JStr ''response'')"
  shows "onMessage st (Some msg) now =
     (if truthy (jprop msg ''requestId'') then
        (case pending_get st (jprop msg ''requestId'') of
           None \<Rightarrow> st
         | Some r \<Rightarrow>
             (case pending_resolve st r msg of
                Inl st' \<Rightarrow> st'
              | Inr st' \<Rightarrow> pending_delete st' (jprop msg ''requestId'')))
      else st)"
  using assms by (cases msg) (auto simp add: onMessage_def split: option.splits)

text \<open>
  C3. A response frame whose \<^verbatim>\<open>requestId\<close> finds no entry in the pending-request map is
  dropped: the handler returns the state it was given, so nothing is raised, nothing is
  sent again, and no waiting request is settled, has its timer cleared or loses its entry.
\<close>

theorem unmatched_response_dropped:
  assumes "jprop msg ''type'' = Some (JStr ''response'')"
    and "pending_get st (jprop msg ''requestId'') = None"
  shows "onMessage st (Some msg) now = st \<and> react st (Message ws (Some msg) now) = st"
proof -
  from assms have "onMessage st (Some msg) now = st"
    by (simp add: onMessage_response)
  then show ?thesis by simp
qed

theorem unmatched_response_dropped_witness:
  "jprop (JObj [(''type'', JStr ''response''), (''requestId'', JNum 1)]) ''type''
     = Some (JStr ''response'') \<and>
   pending_get (timerFired (run init [Connection 1 1000, Send ''apply_effect'' None None]) 1)
     (jprop (JObj [(''type'', JStr ''response''), (''requestId'', JNum 1)]) ''requestId'') = None \<and>
   onMessage (timerFired (run init [Connection 1 1000, Send ''apply_effect'' None None]) 1)
     (Some (JObj [(''type'', JStr ''response''), (''requestId'', JNum 1)])) 2000
     = timerFired (run init [Connection 1 1000, Send ''apply_effect'' None None]) 1"
  (is "?A \<and> ?B \<and> ?C")
proof -
  have a: ?A by simp
  have b: ?B
    by (simp add: pending_get_def timerFired_def run_def sendToPremmiere_def onConnection_def
          init_def Let_def)
  from unmatched_response_dropped [OF a b] have ?C by simp
  with a b show ?thesis by simp
qed





section \<open>Crash classification\<close>

lemma onMessage_heartbeat_fields:
  "openSockets (onMessage st data now) = openSockets st \<and>
   (lastHeartbeat (onMessage st data now) = lastHeartbeat st \<or>
    lastHeartbeat (onMessage st data now) = now)"
  using onMessage_cases [of st data now]
  by (auto simp: pending_delete_def split: option.splits)

lemma heartbeat_inv_step:
  assumes "heartbeat_inv evs st" and "clock_positive e"
  shows "heartbeat_inv (evs @ [e]) (react st e)"
proof (cases e)
  case (Connection ws now)
  with assms show ?thesis by (simp add: heartbeat_inv_def onConnection_def)
next
  case (Message ws data now)
  show ?thesis
  proof (cases "ws \<in> openSockets st")
    case True
    with assms(1) have c: "list_ex is_connection evs" by (auto simp: heartbeat_inv_def)
    from assms Message have "0 < now" by simp
    with onMessage_heartbeat_fields [of st data now] assms(1) c Message True
    show ?thesis by (auto simp: heartbeat_inv_def)
  next
    case False
    with assms Message show ?thesis by (simp add: heartbeat_inv_def)
  qed
next
  case (Close ws)
  with assms show ?thesis by (auto simp add: heartbeat_inv_def onClose_def)
next
  case (CheckForCrash isRunning now dir now')
  with assms show ?thesis by (simp add: heartbeat_inv_def checkForCrash_def)
next
  case (Send command params timeout)
  with assms show ?thesis
    by (simp add: heartbeat_inv_def sendToPremmiere_def Let_def split: option.splits)
next
  case (TimerFired q)
  with assms show ?thesis by (simp add: heartbeat_inv_def timerFired_def split: option.splits)
qed

lemma heartbeat_inv_run:
  "\<forall>e \<in> set evs. clock_positive e \<Longrightarrow> heartbeat_inv evs (run init evs)"
proof (induction evs rule: rev_induct)
  case Nil
  then show ?case by (simp add: heartbeat_inv_def run_def init_def)
next
  case (snoc e evs)
  then show ?case using heartbeat_inv_step [of evs "run init evs" e] by (simp add: run_snoc)
qed

text \<open>
  C5, as amended. When the crash check runs after a disconnect: if the host process is
  absent and some peer has ever connected, a crash is recorded, its time being the clock
  reading (not zero) and its log what \<^verbatim>\<open>getLatestCrashLog\<close> finds; if the process is
  present, or no peer ever connected, the state is left as it was. A socket is only open
  after a connection, so at every disconnect the first case depends on the process alone:
  the connection itself sets \<^verbatim>\<open>lastHeartbeat\<close>, with or without a heartbeat frame.
\<close>

theorem crash_recorded_iff_process_absent_after_connection:
  assumes "list_all clock_positive evs" and "0 < now"
  shows "(\<not> isRunning \<and> list_ex is_connection evs \<longrightarrow>
            lastCrashTime (checkForCrash (run init evs) isRunning now dir now') = now \<and>
            lastCrashTime (checkForCrash (run init evs) isRunning now dir now') \<noteq> 0 \<and>
            lastCrashLog (checkForCrash (run init evs) isRunning now dir now') =
              getLatestCrashLog dir now') \<and>
         (isRunning \<or> \<not> list_ex is_connection evs \<longrightarrow>
            checkForCrash (run init evs) isRunning now dir now' = run init evs) \<and>
         (openSockets (run init evs) \<noteq> {} \<longrightarrow> list_ex is_connection evs)"
proof -
  from assms(1) have "\<forall>e \<in> set evs. clock_positive e" by (simp add: list_all_iff)
  from heartbeat_inv_run [OF this] assms(2) show ?thesis
    by (auto simp: heartbeat_inv_def checkForCrash_def)
qed

text \<open>
  C5 as stated fails: in this run no heartbeat frame was ever received, the process is
  absent at the crash check, and a crash is recorded.
\<close>

theorem crash_recorded_without_heartbeat:
  "\<not> list_ex is_heartbeat silent_disconnect \<and>
   lastCrashTime (run init silent_disconnect) = 0 \<and>
   lastCrashTime (checkForCrash (run init silent_disconnect) False 2000 (Some []) 2000) = 2000"
  by (simp add: silent_disconnect_def run_def onConnection_def onClose_def checkForCrash_def
        init_def)

theorem crash_recorded_iff_process_absent_after_connection_witness:
  "list_all clock_positive silent_disconnect \<and> list_ex is_connection silent_disconnect \<and>
   lastCrashTime (checkForCrash (run init silent_disconnect) False 2000 None 2000) = 2000 \<and>
   checkForCrash (run init silent_disconnect) True 2000 None 2000 = run init silent_disconnect"
proof -
  have a: "list_all clock_positive silent_disconnect" by (simp add: silent_disconnect_def)
  have b: "list_ex is_connection silent_disconnect" by (simp add: silent_disconnect_def)
  have c: "(0::int) < 2000" by simp
  from crash_recorded_iff_process_absent_after_connection [OF a c, of False None 2000]
       crash_recorded_iff_process_absent_after_connection [OF a c, of True None 2000] a b
  show ?thesis by simp
qed

section \<open>Crash-artifact capture\<close>

lemma stat_all_set:
  "stat_all fs = Some stated \<Longrightarrow>
     set stated = {(m, f). f \<in> set fs \<and> mtime f = Some m} \<and> (\<forall>f \<in> set fs. mtime f \<noteq> None)"
  by (induction fs arbitrary: stated) (auto split: option.splits)

lemma sort_key_head:
  assumes "sort_key k xs = x # rest"
  shows "x \<in> set xs \<and> (\<forall>y \<in> set xs. k x \<le> k y)"
proof -
  have "sorted (map k (sort_key k xs))" by (rule sorted_sort_key)
  with assms have "\<forall>y \<in> set (x # rest). k x \<le> k y" by auto
  moreover have "set (x # rest) = set xs" using assms set_sort [of k xs] by simp
  ultimately show ?thesis by auto
qed

lemma getLatestCrashLog_cases:
  "getLatestCrashLog dir now = [] \<or>
   (\<exists>entries stated m f rest t. dir = Some entries \<and>
      stat_all (filter is_candidate entries) = Some stated \<and>
      sort_key (\<lambda>(m, f). - m) stated = (m, f) # rest \<and> now - 60000 < m \<and>
      contents f = Some t \<and> getLatestCrashLog dir now = take 5000 t)"
  by (auto simp: getLatestCrashLog_def split: option.splits list.splits)

lemma newest_of_sorted:
  assumes "stat_all (filter is_candidate entries) = Some stated"
    and "sort_key (\<lambda>(m, f). - m) stated = (m, f) # rest"
  shows "f \<in> set entries \<and> is_candidate f \<and> mtime f = Some m \<and>
         (\<forall>g \<in> set entries. is_candidate g \<longrightarrow> (\<exists>m'. mtime g = Some m' \<and> m' \<le> m))"
proof -
  from stat_all_set [OF assms(1)]
  have s: "set stated = {(m, f). f \<in> set (filter is_candidate entries) \<and> mtime f = Some m}"
    and n: "\<forall>f \<in> set (filter is_candidate entries). mtime f \<noteq> None" by simp_all
  from sort_key_head [OF assms(2)]
  have h: "(m, f) \<in> set stated" and le: "\<forall>y \<in> set stated. - m \<le> (case y of (m', g) \<Rightarrow> - m')"
    by auto
  from h s have a: "f \<in> set entries \<and> is_candidate f \<and> mtime f = Some m" by auto
  have "\<exists>m'. mtime g = Some m' \<and> m' \<le> m" if "g \<in> set entries" and "is_candidate g" for g
  proof -
    from that n obtain m' where m': "mtime g = Some m'" by auto
    with that s have "(m', g) \<in> set stated" by auto
    with le have "- m \<le> - m'" by auto
    with m' show ?thesis by simp
  qed
  with a show ?thesis by blast
qed

lemma stat_all_total:
  "\<forall>f \<in> set fs. mtime f \<noteq> None \<Longrightarrow> \<exists>stated. stat_all fs = Some stated"
  by (induction fs) auto

lemma length_getLatestCrashLog: "length (getLatestCrashLog dir now) \<le> 5000"
  using getLatestCrashLog_cases [of dir now] by auto

lemma getLatestCrashLog_newest:
  assumes "\<forall>g \<in> set entries. is_candidate g \<longrightarrow> (\<exists>m'. mtime g = Some m' \<and> m' \<le> m)"
    and "f \<in> set entries" and "is_candidate f" and "mtime f = Some m" and "now - 60000 < m"
  shows "\<exists>g. g \<in> set entries \<and> is_candidate g \<and> mtime g = Some m \<and>
             getLatestCrashLog (Some entries) now =
               (case contents g of None \<Rightarrow> [] | Some t \<Rightarrow> take 5000 t)"
proof -
  from assms(1) have "\<forall>g \<in> set (filter is_candidate entries). mtime g \<noteq> None" by auto
  from stat_all_total [OF this]
  obtain stated where st: "stat_all (filter is_candidate entries) = Some stated" by blast
  from stat_all_set [OF st] assms(2-4) have "(m, f) \<in> set stated" by auto
  then have "sort_key (\<lambda>(m, f). - m) stated \<noteq> []"
    using set_sort [of "\<lambda>(m, f). - m" stated] by (metis empty_iff empty_set)
  then obtain m0 g rest where hd: "sort_key (\<lambda>(m, f). - m) stated = (m0, g) # rest"
    by (cases "sort_key (\<lambda>(m, f). - m) stated") auto
  from newest_of_sorted [OF st hd]
  have g: "g \<in> set entries \<and> is_candidate g \<and> mtime g = Some m0"
    and top: "\<forall>h \<in> set entries. is_candidate h \<longrightarrow> (\<exists>m'. mtime h = Some m' \<and> m' \<le> m0)"
    by simp_all
  from top assms(2-4) have "m \<le> m0" by auto
  moreover from assms(1) g have "m0 \<le> m" by auto
  ultimately have eq: "m0 = m" by simp
  have "getLatestCrashLog (Some entries) now =
          (case contents g of None \<Rightarrow> [] | Some t \<Rightarrow> take 5000 t)"
    using st hd eq assms(5) by (simp add: getLatestCrashLog_def)
  with g eq show ?thesis by blast
qed

lemma getLatestCrashLog_stale:
  assumes "\<forall>g \<in> set entries. is_candidate g \<longrightarrow> (\<forall>m. mtime g = Some m \<longrightarrow> m \<le> now - 60000)"
  shows "getLatestCrashLog (Some entries) now = []"
proof (rule ccontr)
  assume "getLatestCrashLog (Some entries) now \<noteq> []"
  with getLatestCrashLog_cases [of "Some entries" now]
  obtain stated m f rest where st: "stat_all (filter is_candidate entries) = Some stated"
    and hd: "sort_key (\<lambda>(m, f). - m) stated = (m, f) # rest" and w: "now - 60000 < m"
    by auto
  from newest_of_sorted [OF st hd] assms have "m \<le> now - 60000" by auto
  with w show False by simp
qed

text \<open>
  C6. \<^verbatim>\<open>getLatestCrashLog\<close> looks at the most recently modified candidate only. A
  non-empty result is the text of a candidate whose modification time no other candidate
  exceeds and which lies within the last 60000 ms, cut to its first 5000 characters; the
  result never has more than 5000. When no candidate is newer than the window, the result
  is empty. When every candidate can be examined and a newest one lies within the window,
  the result is the (capped) text of a newest candidate, empty if it cannot be read.
\<close>

theorem latest_crash_log_is_newest_within_window:
  "(getLatestCrashLog dir now \<noteq> [] \<longrightarrow>
      (\<exists>entries f m t. dir = Some entries \<and> f \<in> set entries \<and> is_candidate f \<and>
         mtime f = Some m \<and> contents f = Some t \<and>
         (\<forall>g \<in> set entries. is_candidate g \<longrightarrow> (\<exists>m'. mtime g = Some m' \<and> m' \<le> m)) \<and>
         now - 60000 < m \<and> getLatestCrashLog dir now = take 5000 t)) \<and>
   length (getLatestCrashLog dir now) \<le> 5000 \<and>
   (\<forall>entries. dir = Some entries \<and>
      (\<forall>g \<in> set entries. is_candidate g \<longrightarrow> (\<forall>m. mtime g = Some m \<longrightarrow> m \<le> now - 60000)) \<longrightarrow>
      getLatestCrashLog dir now = []) \<and>
   (\<forall>entries f m. dir = Some entries \<and> f \<in> set entries \<and> is_candidate f \<and>
      mtime f = Some m \<and> now - 60000 < m \<and>
      (\<forall>g \<in> set entries. is_candidate g \<longrightarrow> (\<exists>m'. mtime g = Some m' \<and> m' \<le> m)) \<longrightarrow>
      (\<exists>g. g \<in> set entries \<and> is_candidate g \<and> mtime g = Some m \<and>
           getLatestCrashLog dir now = (case contents g of None \<Rightarrow> [] | Some t \<Rightarrow> take 5000 t)))"
proof (intro conjI impI allI)
  assume ne: "getLatestCrashLog dir now \<noteq> []"
  with getLatestCrashLog_cases [of dir now]
  obtain entries stated m f rest t where d: "dir = Some entries"
    and st: "stat_all (filter is_candidate entries) = Some stated"
    and hd: "sort_key (\<lambda>(m, f). - m) stated = (m, f) # rest" and w: "now - 60000 < m"
    and c: "contents f = Some t" and r: "getLatestCrashLog dir now = take 5000 t"
    by auto
  from newest_of_sorted [OF st hd] d w c r
  show "\<exists>entries f m t. dir = Some entries \<and> f \<in> set entries \<and> is_candidate f \<and>
         mtime f = Some m \<and> contents f = Some t \<and>
         (\<forall>g \<in> set entries. is_candidate g \<longrightarrow> (\<exists>m'. mtime g = Some m' \<and> m' \<le> m)) \<and>
         now - 60000 < m \<and> getLatestCrashLog dir now = take 5000 t"
    by blast
next
  show "length (getLatestCrashLog dir now) \<le> 5000" by (rule length_getLatestCrashLog)
next
  fix entries
  assume "dir = Some entries \<and>
      (\<forall>g \<in> set entries. is_candidate g \<longrightarrow> (\<forall>m. mtime g = Some m \<longrightarrow> m \<le> now - 60000))"
  then show "getLatestCrashLog dir now = []" using getLatestCrashLog_stale by blast
next
  fix entries f m
  assume a: "dir = Some entries \<and> f \<in> set entries \<and> is_candidate f \<and>
      mtime f = Some m \<and> now - 60000 < m \<and>
      (\<forall>g \<in> set entries. is_candidate g \<longrightarrow> (\<exists>m'. mtime g = Some m' \<and> m' \<le> m))"
  then have "\<exists>g. g \<in> set entries \<and> is_candidate g \<and> mtime g = Some m \<and>
           getLatestCrashLog (Some entries) now =
             (case contents g of None \<Rightarrow> [] | Some t \<Rightarrow> take 5000 t)"
    by (intro getLatestCrashLog_newest [of entries m f now]) simp_all
  with a show "\<exists>g. g \<in> set entries \<and> is_candidate g \<and> mtime g = Some m \<and>
           getLatestCrashLog dir now = (case contents g of None \<Rightarrow> [] | Some t \<Rightarrow> take 5000 t)"
    by simp
qed

lemma report_dir_candidates:
  "filter is_candidate report_dir =
     [\<lparr> name = ''Adobe Premiere Pro 2025_a.crash'', mtime = Some 940000, contents = Some ''first'' \<rparr>,
      \<lparr> name = ''Adobe Premiere Pro 2025_b.crash'', mtime = Some 990000, contents = Some ''second'' \<rparr>]"
  by (simp add: report_dir_def is_candidate_def endsWith_def)

theorem latest_crash_log_is_newest_within_window_witness:
  "getLatestCrashLog (Some report_dir) 1000000 = ''second'' \<and>
   getLatestCrashLog (Some report_dir) 1050000 = []"
proof -
  have a: "getLatestCrashLog (Some report_dir) 1000000 = ''second''"
    by (simp add: getLatestCrashLog_def report_dir_candidates)
  have b: "\<forall>g \<in> set report_dir. is_candidate g \<longrightarrow>
             (\<forall>m. mtime g = Some m \<longrightarrow> m \<le> 1050000 - 60000)"
    by (simp add: report_dir_def is_candidate_def endsWith_def)
  from latest_crash_log_is_newest_within_window [of "Some report_dir" 1050000] b
  have "getLatestCrashLog (Some report_dir) 1050000 = []" by blast
  with a show ?thesis by simp
qed

section \<open>The watcher stops with the run\<close>

lemma start_consistent: "watcher_consistent w \<Longrightarrow> watcher_consistent (startDialogWatcher w)"
  by (auto simp: watcher_consistent_def startDialogWatcher_def split: option.splits)

lemma stop_consistent: "watcher_consistent w \<Longrightarrow> watcher_consistent (stopDialogWatcher w)"
  by (auto simp: watcher_consistent_def stopDialogWatcher_def split: option.splits)

lemma interfere_consistent: "watcher_consistent w \<Longrightarrow> watcher_consistent (interfere ops w)"
  by (induction ops w rule: interfere.induct) (simp_all add: start_consistent stop_consistent)

lemma stop_stopped:
  "watcher_consistent w \<Longrightarrow>
     dialogWatcherInterval (stopDialogWatcher w) = None \<and> activeIntervals (stopDialogWatcher w) = {}"
  by (auto simp: watcher_consistent_def stopDialogWatcher_def split: option.splits)

lemma awaitPeer_stops:
  "watcher_consistent w \<Longrightarrow>
     dialogWatcherInterval (snd (awaitPeer env start now k w)) = None \<and>
     activeIntervals (snd (awaitPeer env start now k w)) = {} \<and>
     message (fst (awaitPeer env start now k w)) \<in>
       {''Premiere restarted and CEP panel connected'',
        ''Premiere started but CEP panel did not connect within 60s. Make sure to open Window > Extensions > MoshBrosh MCP Bridge''}"
proof (induction env start now k w rule: awaitPeer.induct)
  case (1 env start now k w)
  show ?case
  proof (cases "now - start < 60000 \<and> \<not> peerAttached env k")
    case True
    with "1.IH" interfere_consistent [OF "1.prems"] show ?thesis
      by (subst (1 2 3) awaitPeer.simps) simp
  next
    case False
    with stop_stopped [OF "1.prems"] show ?thesis
      by (subst (1 2 3) awaitPeer.simps) auto
  qed
qed

text \<open>
  C9. \<^verbatim>\<open>restartPremiere\<close> always returns (both its loops end, the clock advancing with
  every sleep), and whichever way it returns, with success, with the host not ready after
  90 s, or with the panel not connected after 60 s, the dialog watcher that was running
  after its first statement is stopped: the module variable is cleared and no interval
  timer is left live, whatever other runs did to the watcher in between.
\<close>

theorem restart_always_stops_watcher:
  assumes "watcher_consistent w"
  shows "dialogWatcherInterval (startDialogWatcher w) \<noteq> None \<and>
         dialogWatcherInterval (snd (restartPremiere env w)) = None \<and>
         activeIntervals (snd (restartPremiere env w)) = {} \<and>
         message (fst (restartPremiere env w)) \<in>
           {''Premiere restarted and CEP panel connected'',
            ''Premiere did not become ready within 90s'',
            ''Premiere started but CEP panel did not connect within 60s. Make sure to open Window > Extensions > MoshBrosh MCP Bridge''}"
proof -
  let ?w1 = "startDialogWatcher w"
  let ?w2 = "interfere (untilReady env) ?w1"
  have c: "watcher_consistent ?w2"
    by (rule interfere_consistent [OF start_consistent [OF assms]])
  have started: "dialogWatcherInterval ?w1 \<noteq> None"
    by (simp add: startDialogWatcher_def split: option.splits)
  obtain ready now where r: "waitForPremiereReady (probes env) 90000 (clock env + 3000) = (ready, now)"
    by (cases "waitForPremiereReady (probes env) 90000 (clock env + 3000)")
  show ?thesis
  proof (cases ready)
    case False
    with r have "restartPremiere env w =
        (\<lparr> restart_result.success = False, message = ''Premiere did not become ready within 90s'' \<rparr>,
         stopDialogWatcher ?w2)"
      by (simp add: restartPremiere_def Let_def)
    with stop_stopped [OF c] started show ?thesis by simp
  next
    case True
    with r have "restartPremiere env w = awaitPeer env now now 0 ?w2"
      by (simp add: restartPremiere_def Let_def)
    with awaitPeer_stops [OF c, of env now now 0] started show ?thesis by auto
  qed
qed

theorem restart_always_stops_watcher_witness:
  "watcher_consistent idle_handler \<and>
   dialogWatcherInterval (startDialogWatcher idle_handler) = Some 0 \<and>
   restart_result.success (fst (restartPremiere prompt_host idle_handler)) \<and>
   dialogWatcherInterval (snd (restartPremiere prompt_host idle_handler)) = None \<and>
   activeIntervals (snd (restartPremiere prompt_host idle_handler)) = {}"
proof -
  have a: "watcher_consistent idle_handler"
    by (simp add: watcher_consistent_def idle_handler_def)
  have b: "dialogWatcherInterval (startDialogWatcher idle_handler) = Some 0"
    by (simp add: startDialogWatcher_def idle_handler_def)
  have c: "restart_result.success (fst (restartPremiere prompt_host idle_handler))"
    by (simp add: restartPremiere_def waitForPremiereReady_def prompt_host_def Let_def
          waitForPremiereReady_loop.simps [of _ _ _ _ 0] awaitPeer.simps [of _ _ _ 0])
  from restart_always_stops_watcher [OF a, of prompt_host] a b c show ?thesis by simp
qed

section \<open>A failed step ends the run\<close>

lemma update_last_push:
  "update_last f (push_step nm w r) =
     r\<lparr> steps := steps r @ [f \<lparr> step = nm, status = ''starting'', result = None, waitMs = w \<rparr>] \<rparr>"
  by (simp add: update_last_def push_step_def)

lemma remote_step_payload:
  "p \<noteq> JNull \<Longrightarrow>
   remote_step nt nm command prefix (Resolved (Some p)) c =
     (if \<not> truthy (jprop p ''success'')
      then Returns ((fst c)\<lparr> steps := steps (fst c) @
                    [\<lparr> step = nm, status = ''failed'', result = Some p, waitMs = None \<rparr>],
                  error := Some (case String nt (jprop p ''error'') of
                                   Some text \<Rightarrow> prefix @ text
                                 | None \<Rightarrow> conversion_error_message) \<rparr>, snd c @ [command])
      else Proceeds ((fst c)\<lparr> steps := steps (fst c) @
                    [\<lparr> step = nm, status = ''success'', result = Some p, waitMs = None \<rparr>] \<rparr>,
                snd c @ [command]))"
  by (cases p)
     (simp_all add: remote_step_def update_last_push status_of_def Let_def split: option.splits)

lemma remote_step_declined:
  "declined reply p \<Longrightarrow>
   remote_step nt nm command prefix reply c =
     Returns ((fst c)\<lparr> steps := steps (fst c) @
                    [\<lparr> step = nm, status = ''failed'', result = Some p, waitMs = None \<rparr>],
                  error := Some (case String nt (jprop p ''error'') of
                                   Some text \<Rightarrow> prefix @ text
                                 | None \<Rightarrow> conversion_error_message) \<rparr>, snd c @ [command])"
  by (simp add: declined_def remote_step_payload)

lemma remote_step_accepted:
  "accepted reply \<Longrightarrow>
   \<exists>p. remote_step nt nm command prefix reply c =
     Proceeds ((fst c)\<lparr> steps := steps (fst c) @
                    [\<lparr> step = nm, status = ''success'', result = Some p, waitMs = None \<rparr>] \<rparr>,
          snd c @ [command])"
  by (auto simp: accepted_def remote_step_payload split: reply.splits option.splits)

lemma remote_step_thrown:
  "reply = Rejected m \<or> (reply = Resolved None \<and> m = type_error_message None) \<or>
   (reply = Resolved (Some JNull) \<and> m = type_error_message (Some JNull)) \<Longrightarrow>
   remote_step nt nm command prefix reply c =
     Returns ((fst c)\<lparr> steps := steps (fst c) @
                    [\<lparr> step = nm, status = ''starting'', result = None, waitMs = None \<rparr>],
                  error := Some m \<rparr>, snd c @ [command])"
  by (auto simp add: remote_step_def push_step_def Let_def)

lemma reply_cases:
  "accepted reply \<or> (\<exists>msg. gives_up nt prefix reply msg) \<or> reply = Unsettled"
proof (cases reply)
  case (Rejected m)
  then have "gives_up nt prefix reply m" by (simp add: gives_up_def)
  then show ?thesis by blast
next
  case Unsettled
  then show ?thesis by simp
next
  case (Resolved v)
  show ?thesis
  proof (cases v)
    case None
    with Resolved have "gives_up nt prefix reply (type_error_message None)"
      by (simp add: gives_up_def)
    then show ?thesis by blast
  next
    case (Some p)
    show ?thesis
    proof (cases "p = JNull")
      case True
      with Resolved Some have "gives_up nt prefix reply (type_error_message (Some JNull))"
        by (simp add: gives_up_def)
      then show ?thesis by blast
    next
      case False
      show ?thesis
      proof (cases "truthy (jprop p ''success'')")
        case True
        with Resolved Some False show ?thesis by (simp add: accepted_def)
      next
        case f: False
        with Resolved Some False have d: "declined reply p" by (simp add: declined_def)
        show ?thesis
        proof (cases "String nt (jprop p ''error'')")
          case None
          with d have "gives_up nt prefix reply conversion_error_message"
            unfolding gives_up_def by blast
          then show ?thesis by blast
        next
          case (Some wording)
          with d have "gives_up nt prefix reply (prefix @ wording)"
            unfolding gives_up_def by blast
          then show ?thesis by blast
        qed
      qed
    qed
  qed
qed

lemma remote_step_unsettled:
  "remote_step nt nm command prefix Unsettled c =
     Awaits ((fst c)\<lparr> steps := steps (fst c) @
                    [\<lparr> step = nm, status = ''starting'', result = None, waitMs = None \<rparr>] \<rparr>,
             snd c @ [command])"
  by (simp add: remote_step_def push_step_def Let_def)

lemma planned_length: "length (planned env) = first_step env + 5"
  and planned_ops_length: "length (planned_ops env) = first_step env + 5"
  by (simp_all add: planned_def planned_ops_def first_step_def)

lemma planned_nth:
  "planned env ! first_step env = ''open_project''"
  "planned env ! Suc (first_step env) = ''apply_effect''"
  "planned env ! Suc (Suc (first_step env)) = ''wait_for_processing''"
  "planned env ! Suc (Suc (Suc (first_step env))) = ''export_sequence''"
  "planned env ! Suc (Suc (Suc (Suc (first_step env)))) = ''analyze_export''"
  by (simp_all add: planned_def first_step_def)

lemma planned_ops_nth:
  "planned_ops env ! first_step env = ''open_test_project''"
  "planned_ops env ! Suc (first_step env) = ''apply_effect''"
  "planned_ops env ! Suc (Suc (first_step env)) = ''wait''"
  "planned_ops env ! Suc (Suc (Suc (first_step env))) = ''export_sequence''"
  "planned_ops env ! Suc (Suc (Suc (Suc (first_step env)))) = ''analyzeExportedVideo''"
  by (simp_all add: planned_ops_def first_step_def)

lemma ensure_connected_started:
  "started env \<Longrightarrow>
   \<exists>c. ensure_connected (connected env) (restartResult env)
          (\<lparr> steps = [], success = False, error = None \<rparr>, []) = Proceeds c \<and>
        on_plan env (first_step env) c"
  by (auto simp: started_def ensure_connected_def update_last_push planned_def planned_ops_def
        first_step_def on_plan_def Let_def)

lemma ensure_connected_failed:
  "\<not> started env \<Longrightarrow>
   ensure_connected (connected env) (restartResult env)
          (\<lparr> steps = [], success = False, error = None \<rparr>, []) =
     Returns (\<lparr> steps = [\<lparr> step = ''restart_premiere'', status = ''failed'',
                       result = Some (restart_json (restartResult env)), waitMs = None \<rparr>],
            success = False, error = Some ''Failed to start Premiere'' \<rparr>, [''restartPremiere''])"
  by (simp add: started_def ensure_connected_def update_last_push status_of_def Let_def)

lemma remote_step_on_plan:
  assumes "on_plan env n c" and "n < first_step env + 5"
    and "planned env ! n = nm" and "planned_ops env ! n = command" and "accepted reply"
  shows "\<exists>c'. remote_step nt nm command prefix reply c = Proceeds c' \<and> on_plan env (Suc n) c'"
proof -
  from remote_step_accepted [OF assms(5), of nt nm command prefix c]
  obtain p where "remote_step nt nm command prefix reply c =
     Proceeds ((fst c)\<lparr> steps := steps (fst c) @
                    [\<lparr> step = nm, status = ''success'', result = Some p, waitMs = None \<rparr>] \<rparr>,
          snd c @ [command])" by blast
  with assms(1-4) show ?thesis
    by (simp add: on_plan_def take_Suc_conv_app_nth planned_length planned_ops_length)
qed

lemma remote_step_gives_up:
  assumes "on_plan env n c" and "n < first_step env + 5"
    and "planned env ! n = nm" and "planned_ops env ! n = command"
    and "gives_up nt prefix reply msg"
  shows "\<exists>c'. remote_step nt nm command prefix reply c = Returns c' \<and>
           map step (steps (fst c')) = take (Suc n) (planned env) \<and>
           snd c' = take (Suc n) (planned_ops env) \<and>
           \<not> success (fst c') \<and> error (fst c') = Some msg \<and>
           ((\<exists>p. declined reply p) \<longrightarrow> status (last (steps (fst c'))) = ''failed'')"
proof -
  from assms(5) consider
      p wording where "declined reply p" "String nt (jprop p ''error'') = Some wording"
        "msg = prefix @ wording"
    | p where "declined reply p" "String nt (jprop p ''error'') = None"
        "msg = conversion_error_message"
    | "reply = Rejected msg \<or> (reply = Resolved None \<and> msg = type_error_message None) \<or>
       (reply = Resolved (Some JNull) \<and> msg = type_error_message (Some JNull))"
    unfolding gives_up_def by blast
  then show ?thesis
  proof cases
    case 1
    with assms(1-4) show ?thesis
      by (simp add: remote_step_declined on_plan_def take_Suc_conv_app_nth planned_length
            planned_ops_length)
  next
    case 2
    with assms(1-4) show ?thesis
      by (simp add: remote_step_declined on_plan_def take_Suc_conv_app_nth planned_length
            planned_ops_length)
  next
    case 3
    then have "\<not> (\<exists>p. declined reply p)" by (auto simp: declined_def)
    with remote_step_thrown [OF 3, of nt nm command prefix c] assms(1-4) show ?thesis
      by (simp add: on_plan_def take_Suc_conv_app_nth planned_length planned_ops_length)
  qed
qed

lemma wait_on_plan:
  assumes "on_plan env (Suc (Suc (first_step env))) c"
  shows "on_plan env (Suc (Suc (Suc (first_step env)))) (wait_for_processing c)"
  using assms
  by (simp add: on_plan_def wait_for_processing_def update_last_push take_Suc_conv_app_nth
        planned_length planned_ops_length planned_nth planned_ops_nth)

lemma stops_afterI:
  assumes "test_cycle env = Returns c"
    and "map step (steps (fst c)) = take n (planned env) \<and>
         snd c = take n (planned_ops env) \<and> \<not> success (fst c) \<and>
         error (fst c) = Some msg \<and>
         (d \<longrightarrow> status (last (steps (fst c))) = ''failed'')"
  shows "stops_after env n msg \<and> (d \<longrightarrow> marked_failed env)"
  using assms
  by (simp add: stops_after_def marked_failed_def runAutonomousTestCycle_def returns_def)

lemma cycle_open:
  assumes "started env"
  obtains c1 where "ensure_connected (connected env) (restartResult env)
          (\<lparr> steps = [], success = False, error = None \<rparr>, []) = Proceeds c1"
    and "on_plan env (first_step env) c1"
  using ensure_connected_started [OF assms] by blast

lemma cycle_effect:
  assumes "started env" and "accepted (projectReply env)"
  obtains c1 c2 where "ensure_connected (connected env) (restartResult env)
          (\<lparr> steps = [], success = False, error = None \<rparr>, []) = Proceeds c1"
    and "remote_step (numberText env) ''open_project'' ''open_test_project'' ''Failed to open project: ''
            (projectReply env) c1 = Proceeds c2"
    and "on_plan env (Suc (first_step env)) c2"
proof -
  from cycle_open [OF assms(1)] obtain c1 where
    c1: "ensure_connected (connected env) (restartResult env)
          (\<lparr> steps = [], success = False, error = None \<rparr>, []) = Proceeds c1"
    and p1: "on_plan env (first_step env) c1" by blast
  have "\<exists>c2. remote_step (numberText env) ''open_project'' ''open_test_project'' ''Failed to open project: ''
            (projectReply env) c1 = Proceeds c2 \<and> on_plan env (Suc (first_step env)) c2"
    by (rule remote_step_on_plan [OF p1 _ planned_nth(1) planned_ops_nth(1) assms(2)]) simp
  with c1 that show ?thesis by blast
qed

lemma cycle_export:
  assumes "started env" and "accepted (projectReply env)" and "accepted (effectReply env)"
  obtains c1 c2 c3 where "ensure_connected (connected env) (restartResult env)
          (\<lparr> steps = [], success = False, error = None \<rparr>, []) = Proceeds c1"
    and "remote_step (numberText env) ''open_project'' ''open_test_project'' ''Failed to open project: ''
            (projectReply env) c1 = Proceeds c2"
    and "remote_step (numberText env) ''apply_effect'' ''apply_effect'' ''Failed to apply effect: ''
            (effectReply env) c2 = Proceeds c3"
    and "on_plan env (Suc (Suc (Suc (first_step env)))) (wait_for_processing c3)"
proof -
  from cycle_effect [OF assms(1,2)] obtain c1 c2 where
    c1: "ensure_connected (connected env) (restartResult env)
          (\<lparr> steps = [], success = False, error = None \<rparr>, []) = Proceeds c1"
    and c2: "remote_step (numberText env) ''open_project'' ''open_test_project'' ''Failed to open project: ''
            (projectReply env) c1 = Proceeds c2"
    and p2: "on_plan env (Suc (first_step env)) c2" by blast
  have "\<exists>c3. remote_step (numberText env) ''apply_effect'' ''apply_effect'' ''Failed to apply effect: ''
            (effectReply env) c2 = Proceeds c3 \<and> on_plan env (Suc (Suc (first_step env))) c3"
    by (rule remote_step_on_plan [OF p2 _ planned_nth(2) planned_ops_nth(2) assms(3)]) simp
  then obtain c3 where
    c3: "remote_step (numberText env) ''apply_effect'' ''apply_effect'' ''Failed to apply effect: ''
            (effectReply env) c2 = Proceeds c3"
    and p3: "on_plan env (Suc (Suc (first_step env))) c3" by blast
  from c1 c2 c3 wait_on_plan [OF p3] that show ?thesis by blast
qed

lemma open_project_gives_up:
  assumes "started env" and "gives_up (numberText env) ''Failed to open project: '' (projectReply env) msg"
  shows "stops_after env (first_step env + 1) msg \<and>
         ((\<exists>p. declined (projectReply env) p) \<longrightarrow> marked_failed env)"
proof -
  from cycle_open [OF assms(1)] obtain c1 where
    c1: "ensure_connected (connected env) (restartResult env)
          (\<lparr> steps = [], success = False, error = None \<rparr>, []) = Proceeds c1"
    and p1: "on_plan env (first_step env) c1" by blast
  have "\<exists>c'. remote_step (numberText env) ''open_project'' ''open_test_project'' ''Failed to open project: ''
            (projectReply env) c1 = Returns c' \<and>
           map step (steps (fst c')) = take (Suc (first_step env)) (planned env) \<and>
           snd c' = take (Suc (first_step env)) (planned_ops env) \<and>
           \<not> success (fst c') \<and> error (fst c') = Some msg \<and>
           ((\<exists>p. declined (projectReply env) p) \<longrightarrow> status (last (steps (fst c'))) = ''failed'')"
    by (rule remote_step_gives_up [OF p1 _ planned_nth(1) planned_ops_nth(1) assms(2)]) simp
  then obtain c' where
    r: "remote_step (numberText env) ''open_project'' ''open_test_project'' ''Failed to open project: ''
            (projectReply env) c1 = Returns c'"
    and f: "map step (steps (fst c')) = take (Suc (first_step env)) (planned env) \<and>
           snd c' = take (Suc (first_step env)) (planned_ops env) \<and>
           \<not> success (fst c') \<and> error (fst c') = Some msg \<and>
           ((\<exists>p. declined (projectReply env) p) \<longrightarrow> status (last (steps (fst c'))) = ''failed'')"
    by blast
  have "test_cycle env = Returns c'"
    by (simp add: test_cycle_def c1 r)
  from stops_afterI [OF this f] show ?thesis by simp
qed

lemma apply_effect_gives_up:
  assumes "started env" and "accepted (projectReply env)"
    and "gives_up (numberText env) ''Failed to apply effect: '' (effectReply env) msg"
  shows "stops_after env (first_step env + 2) msg \<and>
         ((\<exists>p. declined (effectReply env) p) \<longrightarrow> marked_failed env)"
proof -
  from cycle_effect [OF assms(1,2)] obtain c1 c2 where
    c1: "ensure_connected (connected env) (restartResult env)
          (\<lparr> steps = [], success = False, error = None \<rparr>, []) = Proceeds c1"
    and c2: "remote_step (numberText env) ''open_project'' ''open_test_project'' ''Failed to open project: ''
            (projectReply env) c1 = Proceeds c2"
    and p2: "on_plan env (Suc (first_step env)) c2" by blast
  have "\<exists>c'. remote_step (numberText env) ''apply_effect'' ''apply_effect'' ''Failed to apply effect: ''
            (effectReply env) c2 = Returns c' \<and>
           map step (steps (fst c')) = take (Suc (Suc (first_step env))) (planned env) \<and>
           snd c' = take (Suc (Suc (first_step env))) (planned_ops env) \<and>
           \<not> success (fst c') \<and> error (fst c') = Some msg \<and>
           ((\<exists>p. declined (effectReply env) p) \<longrightarrow> status (last (steps (fst c'))) = ''failed'')"
    by (rule remote_step_gives_up [OF p2 _ planned_nth(2) planned_ops_nth(2) assms(3)]) simp
  then obtain c' where
    r: "remote_step (numberText env) ''apply_effect'' ''apply_effect'' ''Failed to apply effect: ''
            (effectReply env) c2 = Returns c'"
    and f: "map step (steps (fst c')) = take (Suc (Suc (first_step env))) (planned env) \<and>
           snd c' = take (Suc (Suc (first_step env))) (planned_ops env) \<and>
           \<not> success (fst c') \<and> error (fst c') = Some msg \<and>
           ((\<exists>p. declined (effectReply env) p) \<longrightarrow> status (last (steps (fst c'))) = ''failed'')"
    by blast
  have "test_cycle env = Returns c'"
    by (simp add: test_cycle_def c1 c2 r)
  from stops_afterI [OF this f] show ?thesis by simp
qed

lemma export_sequence_gives_up:
  assumes "started env" and "accepted (projectReply env)" and "accepted (effectReply env)"
    and "gives_up (numberText env) ''Failed to export: '' (exportReply env) msg"
  shows "stops_after env (first_step env + 4) msg \<and>
         ((\<exists>p. declined (exportReply env) p) \<longrightarrow> marked_failed env)"
proof -
  from cycle_export [OF assms(1-3)] obtain c1 c2 c3 where
    c1: "ensure_connected (connected env) (restartResult env)
          (\<lparr> steps = [], success = False, error = None \<rparr>, []) = Proceeds c1"
    and c2: "remote_step (numberText env) ''open_project'' ''open_test_project'' ''Failed to open project: ''
            (projectReply env) c1 = Proceeds c2"
    and c3: "remote_step (numberText env) ''apply_effect'' ''apply_effect'' ''Failed to apply effect: ''
            (effectReply env) c2 = Proceeds c3"
    and p4: "on_plan env (Suc (Suc (Suc (first_step env)))) (wait_for_processing c3)" by blast
  have "\<exists>c'. remote_step (numberText env) ''export_sequence'' ''export_sequence'' ''Failed to export: ''
            (exportReply env) (wait_for_processing c3) = Returns c' \<and>
           map step (steps (fst c')) = take (Suc (Suc (Suc (Suc (first_step env))))) (planned env) \<and>
           snd c' = take (Suc (Suc (Suc (Suc (first_step env))))) (planned_ops env) \<and>
           \<not> success (fst c') \<and> error (fst c') = Some msg \<and>
           ((\<exists>p. declined (exportReply env) p) \<longrightarrow> status (last (steps (fst c'))) = ''failed'')"
    by (rule remote_step_gives_up [OF p4 _ planned_nth(4) planned_ops_nth(4) assms(4)]) simp
  then obtain c' where
    r: "remote_step (numberText env) ''export_sequence'' ''export_sequence'' ''Failed to export: ''
            (exportReply env) (wait_for_processing c3) = Returns c'"
    and f: "map step (steps (fst c')) = take (Suc (Suc (Suc (Suc (first_step env))))) (planned env) \<and>
           snd c' = take (Suc (Suc (Suc (Suc (first_step env))))) (planned_ops env) \<and>
           \<not> success (fst c') \<and> error (fst c') = Some msg \<and>
           ((\<exists>p. declined (exportReply env) p) \<longrightarrow> status (last (steps (fst c'))) = ''failed'')"
    by blast
  have "test_cycle env = Returns c'"
    by (simp add: test_cycle_def c1 c2 c3 r)
  from stops_afterI [OF this f] show ?thesis by (simp add: numeral_eq_Suc)
qed

lemma remote_step_waits:
  assumes "on_plan env n c" and "n < first_step env + 5"
    and "planned env ! n = nm" and "planned_ops env ! n = command"
  shows "\<exists>c'. remote_step nt nm command prefix Unsettled c = Awaits c' \<and>
           map step (steps (fst c')) = take (Suc n) (planned env) \<and>
           snd c' = take (Suc n) (planned_ops env) \<and>
           \<not> success (fst c') \<and> error (fst c') = None \<and>
           status (last (steps (fst c'))) = ''starting''"
  using assms
  by (simp add: remote_step_unsettled on_plan_def take_Suc_conv_app_nth planned_length
        planned_ops_length)

lemma waits_inI:
  assumes "test_cycle env = Awaits c"
    and "map step (steps (fst c)) = take n (planned env) \<and>
         snd c = take n (planned_ops env) \<and> \<not> success (fst c) \<and>
         error (fst c) = None \<and> status (last (steps (fst c))) = ''starting''"
  shows "waits_in env n"
  using assms by (simp add: waits_in_def runAutonomousTestCycle_def returns_def)

lemma open_project_waits:
  assumes "started env" and "projectReply env = Unsettled"
  shows "waits_in env (first_step env + 1)"
proof -
  from cycle_open [OF assms(1)] obtain c1 where
    c1: "ensure_connected (connected env) (restartResult env)
          (\<lparr> steps = [], success = False, error = None \<rparr>, []) = Proceeds c1"
    and p1: "on_plan env (first_step env) c1" by blast
  have "\<exists>c'. remote_step (numberText env) ''open_project'' ''open_test_project'' ''Failed to open project: ''
            Unsettled c1 = Awaits c' \<and>
           map step (steps (fst c')) = take (Suc (first_step env)) (planned env) \<and>
           snd c' = take (Suc (first_step env)) (planned_ops env) \<and>
           \<not> success (fst c') \<and> error (fst c') = None \<and>
           status (last (steps (fst c'))) = ''starting''"
    by (rule remote_step_waits [OF p1 _ planned_nth(1) planned_ops_nth(1)]) simp
  then obtain c' where
    r: "remote_step (numberText env) ''open_project'' ''open_test_project'' ''Failed to open project: ''
            Unsettled c1 = Awaits c'"
    and f: "map step (steps (fst c')) = take (Suc (first_step env)) (planned env) \<and>
           snd c' = take (Suc (first_step env)) (planned_ops env) \<and>
           \<not> success (fst c') \<and> error (fst c') = None \<and>
           status (last (steps (fst c'))) = ''starting''"
    by blast
  have "test_cycle env = Awaits c'"
    by (simp add: test_cycle_def c1 assms(2) r)
  from waits_inI [OF this f] show ?thesis by simp
qed

lemma apply_effect_waits:
  assumes "started env" and "accepted (projectReply env)" and "effectReply env = Unsettled"
  shows "waits_in env (first_step env + 2)"
proof -
  from cycle_effect [OF assms(1,2)] obtain c1 c2 where
    c1: "ensure_connected (connected env) (restartResult env)
          (\<lparr> steps = [], success = False, error = None \<rparr>, []) = Proceeds c1"
    and c2: "remote_step (numberText env) ''open_project'' ''open_test_project'' ''Failed to open project: ''
            (projectReply env) c1 = Proceeds c2"
    and p2: "on_plan env (Suc (first_step env)) c2" by blast
  have "\<exists>c'. remote_step (numberText env) ''apply_effect'' ''apply_effect'' ''Failed to apply effect: ''
            Unsettled c2 = Awaits c' \<and>
           map step (steps (fst c')) = take (Suc (Suc (first_step env))) (planned env) \<and>
           snd c' = take (Suc (Suc (first_step env))) (planned_ops env) \<and>
           \<not> success (fst c') \<and> error (fst c') = None \<and>
           status (last (steps (fst c'))) = ''starting''"
    by (rule remote_step_waits [OF p2 _ planned_nth(2) planned_ops_nth(2)]) simp
  then obtain c' where
    r: "remote_step (numberText env) ''apply_effect'' ''apply_effect'' ''Failed to apply effect: ''
            Unsettled c2 = Awaits c'"
    and f: "map step (steps (fst c')) = take (Suc (Suc (first_step env))) (planned env) \<and>
           snd c' = take (Suc (Suc (first_step env))) (planned_ops env) \<and>
           \<not> success (fst c') \<and> error (fst c') = None \<and>
           status (last (steps (fst c'))) = ''starting''"
    by blast
  have "test_cycle env = Awaits c'"
    by (simp add: test_cycle_def c1 c2 assms(3) r)
  from waits_inI [OF this f] show ?thesis by simp
qed

lemma export_sequence_waits:
  assumes "started env" and "accepted (projectReply env)" and "accepted (effectReply env)"
    and "exportReply env = Unsettled"
  shows "waits_in env (first_step env + 4)"
proof -
  from cycle_export [OF assms(1-3)] obtain c1 c2 c3 where
    c1: "ensure_connected (connected env) (restartResult env)
          (\<lparr> steps = [], success = False, error = None \<rparr>, []) = Proceeds c1"
    and c2: "remote_step (numberText env) ''open_project'' ''open_test_project'' ''Failed to open project: ''
            (projectReply env) c1 = Proceeds c2"
    and c3: "remote_step (numberText env) ''apply_effect'' ''apply_effect'' ''Failed to apply effect: ''
            (effectReply env) c2 = Proceeds c3"
    and p4: "on_plan env (Suc (Suc (Suc (first_step env)))) (wait_for_processing c3)" by blast
  have "\<exists>c'. remote_step (numberText env) ''export_sequence'' ''export_sequence'' ''Failed to export: ''
            Unsettled (wait_for_processing c3) = Awaits c' \<and>
           map step (steps (fst c')) = take (Suc (Suc (Suc (Suc (first_step env))))) (planned env) \<and>
           snd c' = take (Suc (Suc (Suc (Suc (first_step env))))) (planned_ops env) \<and>
           \<not> success (fst c') \<and> error (fst c') = None \<and>
           status (last (steps (fst c'))) = ''starting''"
    by (rule remote_step_waits [OF p4 _ planned_nth(4) planned_ops_nth(4)]) simp
  then obtain c' where
    r: "remote_step (numberText env) ''export_sequence'' ''export_sequence'' ''Failed to export: ''
            Unsettled (wait_for_processing c3) = Awaits c'"
    and f: "map step (steps (fst c')) = take (Suc (Suc (Suc (Suc (first_step env))))) (planned env) \<and>
           snd c' = take (Suc (Suc (Suc (Suc (first_step env))))) (planned_ops env) \<and>
           \<not> success (fst c') \<and> error (fst c') = None \<and>
           status (last (steps (fst c'))) = ''starting''"
    by blast
  have "test_cycle env = Awaits c'"
    by (simp add: test_cycle_def c1 c2 c3 assms(4) r)
  from waits_inI [OF this f] show ?thesis by (simp add: numeral_eq_Suc)
qed

lemma restart_gives_up:
  assumes "\<not> started env"
  shows "stops_after env 1 ''Failed to start Premiere'' \<and> marked_failed env"
  using assms ensure_connected_failed [of env]
  by (simp add: stops_after_def marked_failed_def runAutonomousTestCycle_def test_cycle_def
        returns_def started_def planned_def planned_ops_def)

lemma poll_step:
  "i < 60 \<Longrightarrow> \<not> sizes_stable (smp i) \<Longrightarrow> \<not> is_stat_error (smp i) \<Longrightarrow>
     poll smp i = poll smp (Suc i)"
  by (subst poll.simps) (cases "smp i"; auto)

lemma poll_stable: "i < 60 \<Longrightarrow> sizes_stable (smp i) \<Longrightarrow> poll smp i = Ready"
  by (subst poll.simps) (cases "smp i"; simp)

lemma poll_error: "i < 60 \<Longrightarrow> is_stat_error (smp i) \<Longrightarrow> \<exists>m. poll smp i = Threw m"
  by (subst poll.simps) (cases "smp i"; simp)

lemma poll_end: "\<not> i < 60 \<Longrightarrow> poll smp i = NotReady"
  by (subst poll.simps) simp

lemma poll_Ready_iff:
  "poll smp i = Ready \<longleftrightarrow>
     (\<exists>k. i \<le> k \<and> k < 60 \<and> sizes_stable (smp k) \<and> (\<forall>j. i \<le> j \<and> j < k \<longrightarrow> \<not> is_stat_error (smp j)))"
proof (induction smp i rule: poll.induct)
  case (1 smp i)
  show ?case
  proof (cases "i < 60")
    case False
    then show ?thesis by (auto simp: poll_end)
  next
    case True
    show ?thesis
    proof (cases "sizes_stable (smp i)")
      case s: True
      with True have "poll smp i = Ready" using poll_stable [of i smp] by simp
      moreover from s True have "\<exists>k. i \<le> k \<and> k < 60 \<and> sizes_stable (smp k) \<and>
          (\<forall>j. i \<le> j \<and> j < k \<longrightarrow> \<not> is_stat_error (smp j))"
        by (intro exI [of _ i]) auto
      ultimately show ?thesis by simp
    next
      case ns: False
      show ?thesis
      proof (cases "is_stat_error (smp i)")
        case e: True
        from poll_error [of i smp] True e have l: "poll smp i \<noteq> Ready" by auto
        have "\<not> (\<exists>k. i \<le> k \<and> k < 60 \<and> sizes_stable (smp k) \<and>
          (\<forall>j. i \<le> j \<and> j < k \<longrightarrow> \<not> is_stat_error (smp j)))"
        proof
          assume "\<exists>k. i \<le> k \<and> k < 60 \<and> sizes_stable (smp k) \<and>
            (\<forall>j. i \<le> j \<and> j < k \<longrightarrow> \<not> is_stat_error (smp j))"
          then obtain k where k: "i \<le> k" "sizes_stable (smp k)"
            "\<forall>j. i \<le> j \<and> j < k \<longrightarrow> \<not> is_stat_error (smp j)" by blast
          from k(2) ns have "k \<noteq> i" by auto
          with k(1) have "i < k" by simp
          with k(3) e show False by auto
        qed
        with l show ?thesis by simp
      next
        case ne: False
        have ih: "poll smp (Suc i) = Ready \<longleftrightarrow>
          (\<exists>k. Suc i \<le> k \<and> k < 60 \<and> sizes_stable (smp k) \<and>
             (\<forall>j. Suc i \<le> j \<and> j < k \<longrightarrow> \<not> is_stat_error (smp j)))"
        proof (cases "smp i")
          case Absent
          with True show ?thesis using "1.IH"(1) by simp
        next
          case (Sizes size1 size2)
          with True ns show ?thesis using "1.IH"(2) [of size1 size2] by simp
        next
          case (StatError m)
          with ne show ?thesis by simp
        qed
        have "(\<exists>k. i \<le> k \<and> k < 60 \<and> sizes_stable (smp k) \<and>
               (\<forall>j. i \<le> j \<and> j < k \<longrightarrow> \<not> is_stat_error (smp j))) \<longleftrightarrow>
              (\<exists>k. Suc i \<le> k \<and> k < 60 \<and> sizes_stable (smp k) \<and>
               (\<forall>j. Suc i \<le> j \<and> j < k \<longrightarrow> \<not> is_stat_error (smp j)))"
          (is "?L \<longleftrightarrow> ?R")
        proof
          assume ?L
          then obtain k where k: "i \<le> k" "k < 60" "sizes_stable (smp k)"
            "\<forall>j. i \<le> j \<and> j < k \<longrightarrow> \<not> is_stat_error (smp j)" by blast
          from k(3) ns have "k \<noteq> i" by auto
          with k(1) have "Suc i \<le> k" by simp
          with k show ?R by (intro exI [of _ k]) auto
        next
          assume ?R
          then obtain k where k: "Suc i \<le> k" "k < 60" "sizes_stable (smp k)"
            "\<forall>j. Suc i \<le> j \<and> j < k \<longrightarrow> \<not> is_stat_error (smp j)" by blast
          have "\<forall>j. i \<le> j \<and> j < k \<longrightarrow> \<not> is_stat_error (smp j)"
          proof (intro allI impI)
            fix j assume j: "i \<le> j \<and> j < k"
            show "\<not> is_stat_error (smp j)"
            proof (cases "j = i")
              case True
              with ne show ?thesis by simp
            next
              case False
              with j have "Suc i \<le> j \<and> j < k" by simp
              with k(4) show ?thesis by blast
            qed
          qed
          with k show ?L by (intro exI [of _ k]) auto
        qed
        with ih poll_step [of i smp] True ns ne show ?thesis by simp
      qed
    qed
  qed
qed

lemma poll_NotReady:
  "\<forall>k. i \<le> k \<and> k < 60 \<longrightarrow> \<not> sizes_stable (smp k) \<and> \<not> is_stat_error (smp k) \<Longrightarrow>
     poll smp i = NotReady"
proof (induction smp i rule: poll.induct)
  case (1 smp i)
  show ?case
  proof (cases "i < 60")
    case False
    then show ?thesis using poll_end [of i smp] by simp
  next
    case True
    with "1.prems" have ns: "\<not> sizes_stable (smp i)" and ne: "\<not> is_stat_error (smp i)" by auto
    have "poll smp (Suc i) = NotReady"
    proof (cases "smp i")
      case Absent
      with True "1.prems" show ?thesis using "1.IH"(1) by simp
    next
      case (Sizes size1 size2)
      with True ns "1.prems" show ?thesis using "1.IH"(2) [of size1 size2] by simp
    next
      case (StatError m)
      with ne show ?thesis by simp
    qed
    with poll_step [of i smp] True ns ne show ?thesis by simp
  qed
qed

lemma cycle_poll:
  assumes "reaches_poll env"
  obtains c5 where "runAutonomousTestCycle env = analyze_export (samples env) (analysisResult env) c5"
    and "on_plan env (Suc (Suc (Suc (Suc (first_step env))))) c5"
    and "returns env"
proof -
  from assms have a: "started env" "accepted (projectReply env)" "accepted (effectReply env)"
    "accepted (exportReply env)" by (simp_all add: reaches_poll_def)
  from cycle_export [OF a(1-3)] obtain c1 c2 c3 where
    c1: "ensure_connected (connected env) (restartResult env)
          (\<lparr> steps = [], success = False, error = None \<rparr>, []) = Proceeds c1"
    and c2: "remote_step (numberText env) ''open_project'' ''open_test_project'' ''Failed to open project: ''
            (projectReply env) c1 = Proceeds c2"
    and c3: "remote_step (numberText env) ''apply_effect'' ''apply_effect'' ''Failed to apply effect: ''
            (effectReply env) c2 = Proceeds c3"
    and p4: "on_plan env (Suc (Suc (Suc (first_step env)))) (wait_for_processing c3)" by blast
  have "\<exists>c5. remote_step (numberText env) ''export_sequence'' ''export_sequence'' ''Failed to export: ''
            (exportReply env) (wait_for_processing c3) = Proceeds c5 \<and>
            on_plan env (Suc (Suc (Suc (Suc (first_step env))))) c5"
    by (rule remote_step_on_plan [OF p4 _ planned_nth(4) planned_ops_nth(4) a(4)]) simp
  then obtain c5 where
    c5: "remote_step (numberText env) ''export_sequence'' ''export_sequence'' ''Failed to export: ''
            (exportReply env) (wait_for_processing c3) = Proceeds c5"
    and p5: "on_plan env (Suc (Suc (Suc (Suc (first_step env))))) c5" by blast
  have "test_cycle env = Returns (analyze_export (samples env) (analysisResult env) c5)"
    by (simp add: test_cycle_def c1 c2 c3 c5)
  then have "runAutonomousTestCycle env = analyze_export (samples env) (analysisResult env) c5"
    and "returns env"
    by (simp_all add: runAutonomousTestCycle_def returns_def)
  with p5 that show ?thesis by blast
qed

lemma planned_take_all:
  "take (Suc (Suc (Suc (Suc (first_step env))))) (planned env) @ [''analyze_export''] = planned env"
  "take (Suc (Suc (Suc (Suc (first_step env))))) (planned_ops env) @ [''analyzeExportedVideo'']
     = planned_ops env"
  by (simp_all add: planned_def planned_ops_def first_step_def)

lemma stops_after_follows:
  assumes "stops_after env n msg" and "n \<le> first_step env + 5"
  shows "follows_plan env \<and> \<not> success (fst (runAutonomousTestCycle env))"
proof -
  let ?c = "runAutonomousTestCycle env"
  from assms(1) have s: "map step (steps (fst ?c)) = take n (planned env)"
    and o: "snd ?c = take n (planned_ops env)" and f: "\<not> success (fst ?c)"
    by (simp_all add: stops_after_def)
  from s have "length (map step (steps (fst ?c))) = length (take n (planned env))" by simp
  with assms(2) have ls: "length (steps (fst ?c)) = n" by (simp add: planned_length)
  from o have "length (snd ?c) = length (take n (planned_ops env))" by simp
  with assms(2) have lo: "length (snd ?c) = n" by (simp add: planned_ops_length)
  from s o ls lo f show ?thesis by (simp add: follows_plan_def)
qed

lemma waits_in_follows:
  assumes "waits_in env n" and "n \<le> first_step env + 5"
  shows "follows_plan env \<and> \<not> success (fst (runAutonomousTestCycle env))"
proof -
  let ?c = "runAutonomousTestCycle env"
  from assms(1) have s: "map step (steps (fst ?c)) = take n (planned env)"
    and o: "snd ?c = take n (planned_ops env)" and f: "\<not> success (fst ?c)"
    by (simp_all add: waits_in_def)
  from s have "length (map step (steps (fst ?c))) = length (take n (planned env))" by simp
  with assms(2) have ls: "length (steps (fst ?c)) = n" by (simp add: planned_length)
  from o have "length (snd ?c) = length (take n (planned_ops env))" by simp
  with assms(2) have lo: "length (snd ?c) = n" by (simp add: planned_ops_length)
  from s o ls lo f show ?thesis by (simp add: follows_plan_def)
qed

lemma push_step_fields:
  "steps (push_step nm w r) = steps r @ [\<lparr> step = nm, status = ''starting'', result = None, waitMs = w \<rparr>]"
  "success (push_step nm w r) = success r"
  "error (push_step nm w r) = error r"
  by (simp_all add: push_step_def)

lemma poll_stage:
  assumes "reaches_poll env"
  shows "returns env \<and>
         (poll (samples env) 0 = NotReady \<longrightarrow>
            map step (steps (fst (runAutonomousTestCycle env))) = planned env \<and>
            snd (runAutonomousTestCycle env) = take (first_step env + 4) (planned_ops env) \<and>
            \<not> success (fst (runAutonomousTestCycle env)) \<and>
            error (fst (runAutonomousTestCycle env)) = Some ''Export file not ready after 60s'' \<and>
            marked_failed env) \<and>
         (\<forall>m. poll (samples env) 0 = Threw m \<longrightarrow>
            map step (steps (fst (runAutonomousTestCycle env))) = planned env \<and>
            snd (runAutonomousTestCycle env) = take (first_step env + 4) (planned_ops env) \<and>
            \<not> success (fst (runAutonomousTestCycle env)) \<and>
            error (fst (runAutonomousTestCycle env)) = Some m) \<and>
         (poll (samples env) 0 = Ready \<longrightarrow>
            map step (steps (fst (runAutonomousTestCycle env))) = planned env \<and>
            snd (runAutonomousTestCycle env) = planned_ops env \<and>
            success (fst (runAutonomousTestCycle env)) =
              truthy (jprop (analysisResult env) ''success'') \<and>
            error (fst (runAutonomousTestCycle env)) = None \<and>
            (\<not> truthy (jprop (analysisResult env) ''success'') \<longrightarrow> marked_failed env))"
proof -
  from cycle_poll [OF assms] obtain c5 where
    r: "runAutonomousTestCycle env = analyze_export (samples env) (analysisResult env) c5"
    and p: "on_plan env (Suc (Suc (Suc (Suc (first_step env))))) c5"
    and q: "returns env" by blast
  from p q planned_take_all [of env] show ?thesis
    unfolding r marked_failed_def
    by (auto simp add: analyze_export_def update_last_push on_plan_def status_of_def Let_def
          numeral_eq_Suc push_step_fields)
qed

lemma poll_stage_follows:
  assumes "reaches_poll env"
  shows "follows_plan env \<and>
         (success (fst (runAutonomousTestCycle env)) \<longrightarrow>
            map step (steps (fst (runAutonomousTestCycle env))) = planned env \<and>
            snd (runAutonomousTestCycle env) = planned_ops env \<and>
            error (fst (runAutonomousTestCycle env)) = None)"
proof -
  let ?c = "runAutonomousTestCycle env"
  have full: "follows_plan env"
    if "map step (steps (fst ?c)) = planned env"
      and "snd ?c = planned_ops env \<or> snd ?c = take (first_step env + 4) (planned_ops env)"
  proof -
    from that(1) have "length (map step (steps (fst ?c))) = length (planned env)" by simp
    then have ls: "length (steps (fst ?c)) = first_step env + 5" by (simp add: planned_length)
    from that(2) have "length (snd ?c) = first_step env + 5 \<or> length (snd ?c) = first_step env + 4"
      by (metis length_take min.absorb2 planned_ops_length le_add2 add_le_cancel_left
            numeral_le_iff semiring_norm(72) semiring_norm(69) le_refl nat_le_linear min.absorb1)
    with that ls show ?thesis by (auto simp: follows_plan_def planned_length planned_ops_length)
  qed
  show ?thesis
  proof (cases "poll (samples env) 0")
    case Ready
    with poll_stage [OF assms] full show ?thesis by simp
  next
    case NotReady
    with poll_stage [OF assms] full show ?thesis by simp
  next
    case (Threw m)
    with poll_stage [OF assms] full show ?thesis by simp
  qed
qed

lemma run_follows_plan:
  "follows_plan env \<and>
   (success (fst (runAutonomousTestCycle env)) \<longrightarrow>
      map step (steps (fst (runAutonomousTestCycle env))) = planned env \<and>
      snd (runAutonomousTestCycle env) = planned_ops env \<and>
      error (fst (runAutonomousTestCycle env)) = None)"
proof (cases "started env")
  case False
  from restart_gives_up [OF False]
  have "stops_after env 1 ''Failed to start Premiere''" by simp
  from stops_after_follows [OF this] show ?thesis by simp
next
  case s: True
  from reply_cases [of "projectReply env" "numberText env" "''Failed to open project: ''"]
  consider (ok) "accepted (projectReply env)"
    | (fail) msg where
        "gives_up (numberText env) ''Failed to open project: '' (projectReply env) msg"
    | (wait) "projectReply env = Unsettled" by blast
  then show ?thesis
  proof cases
    case fail
    from open_project_gives_up [OF s fail]
    have "stops_after env (first_step env + 1) msg" by simp
    from stops_after_follows [OF this] show ?thesis by simp
  next
    case wait
    from waits_in_follows [OF open_project_waits [OF s wait]] show ?thesis by simp
  next
    case a1: ok
    from reply_cases [of "effectReply env" "numberText env" "''Failed to apply effect: ''"]
    consider (ok) "accepted (effectReply env)"
      | (fail) msg where
          "gives_up (numberText env) ''Failed to apply effect: '' (effectReply env) msg"
      | (wait) "effectReply env = Unsettled" by blast
    then show ?thesis
    proof cases
      case fail
      from apply_effect_gives_up [OF s a1 fail]
      have "stops_after env (first_step env + 2) msg" by simp
      from stops_after_follows [OF this] show ?thesis by simp
    next
      case wait
      from waits_in_follows [OF apply_effect_waits [OF s a1 wait]] show ?thesis by simp
    next
      case a2: ok
      from reply_cases [of "exportReply env" "numberText env" "''Failed to export: ''"]
      consider (ok) "accepted (exportReply env)"
        | (fail) msg where
            "gives_up (numberText env) ''Failed to export: '' (exportReply env) msg"
        | (wait) "exportReply env = Unsettled" by blast
      then show ?thesis
      proof cases
        case fail
        from export_sequence_gives_up [OF s a1 a2 fail]
        have "stops_after env (first_step env + 4) msg" by simp
        from stops_after_follows [OF this] show ?thesis by simp
      next
        case wait
        from waits_in_follows [OF export_sequence_waits [OF s a1 a2 wait]]
        show ?thesis by simp
      next
        case ok
        with s a1 a2 have "reaches_poll env" by (simp add: reaches_poll_def)
        then show ?thesis by (rule poll_stage_follows)
      qed
    qed
  qed
qed

lemma success_returns:
  assumes "success (fst (runAutonomousTestCycle env))"
  shows "returns env"
proof (cases "started env")
  case False
  with restart_gives_up [of env] assms show ?thesis by (simp add: stops_after_def)
next
  case s: True
  from reply_cases [of "projectReply env" "numberText env" "''Failed to open project: ''"]
  consider (ok) "accepted (projectReply env)"
    | (fail) msg where
        "gives_up (numberText env) ''Failed to open project: '' (projectReply env) msg"
    | (wait) "projectReply env = Unsettled" by blast
  then show ?thesis
  proof cases
    case fail
    from open_project_gives_up [OF s fail] show ?thesis by (simp add: stops_after_def)
  next
    case wait
    from open_project_waits [OF s wait] assms show ?thesis by (simp add: waits_in_def)
  next
    case a1: ok
    from reply_cases [of "effectReply env" "numberText env" "''Failed to apply effect: ''"]
    consider (ok) "accepted (effectReply env)"
      | (fail) msg where
          "gives_up (numberText env) ''Failed to apply effect: '' (effectReply env) msg"
      | (wait) "effectReply env = Unsettled" by blast
    then show ?thesis
    proof cases
      case fail
      from apply_effect_gives_up [OF s a1 fail] show ?thesis by (simp add: stops_after_def)
    next
      case wait
      from apply_effect_waits [OF s a1 wait] assms show ?thesis by (simp add: waits_in_def)
    next
      case a2: ok
      from reply_cases [of "exportReply env" "numberText env" "''Failed to export: ''"]
      consider (ok) "accepted (exportReply env)"
        | (fail) msg where
            "gives_up (numberText env) ''Failed to export: '' (exportReply env) msg"
        | (wait) "exportReply env = Unsettled" by blast
      then show ?thesis
      proof cases
        case fail
        from export_sequence_gives_up [OF s a1 a2 fail] show ?thesis
          by (simp add: stops_after_def)
      next
        case wait
        from export_sequence_waits [OF s a1 a2 wait] assms show ?thesis
          by (simp add: waits_in_def)
      next
        case ok
        with s a1 a2 have "reaches_poll env" by (simp add: reaches_poll_def)
        from poll_stage [OF this] show ?thesis by simp
      qed
    qed
  qed
qed

text \<open>
  C7, as amended. When a step fails, the run returns there: no later operation is invoked,
  \<^verbatim>\<open>success\<close> is false, the failed step is the last entry of the report, and the later
  steps do not appear in the report at all; the steps of every report are the first planned
  ones. For the restart step \<^verbatim>\<open>error\<close> is \<^verbatim>\<open>Failed to start Premiere\<close>. For a command
  whose reply has a falsy \<^verbatim>\<open>success\<close> it is the prefix of that step followed by the string
  form of the \<^verbatim>\<open>error\<close> field of the reply, or the text of the \<^verbatim>\<open>TypeError\<close> when that
  field has no string form; in these cases the step is marked failed. For a command whose
  promise is rejected (not connected, timeout, remote error) it is the text of the
  rejection, and for one that resolves with \<^verbatim>\<open>undefined\<close> or \<^verbatim>\<open>null\<close> the text of the
  \<^verbatim>\<open>TypeError\<close>. In the last step, an export that never becomes ready gives
  \<^verbatim>\<open>Export file not ready after 60s\<close> and marks the step failed, a failing \<^verbatim>\<open>statSync\<close>
  gives its own message, and an analysis that does not succeed marks the step failed and
  leaves \<^verbatim>\<open>error\<close> unset. A command whose promise never settles is no failure of this
  kind: the run waits in that step and returns no report. Every reply is accepted, fails in
  one of these ways, or never comes; and a run whose \<^verbatim>\<open>success\<close> is true has returned
  the full report with no \<^verbatim>\<open>error\<close>.
\<close>

theorem failed_step_ends_the_run:
  "(\<not> started env \<longrightarrow> stops_after env 1 ''Failed to start Premiere'' \<and> marked_failed env) \<and>
   (started env \<and>
    gives_up (numberText env) ''Failed to open project: '' (projectReply env) msg \<longrightarrow>
      stops_after env (first_step env + 1) msg \<and>
      ((\<exists>p. declined (projectReply env) p) \<longrightarrow> marked_failed env)) \<and>
   (started env \<and> accepted (projectReply env) \<and>
    gives_up (numberText env) ''Failed to apply effect: '' (effectReply env) msg \<longrightarrow>
      stops_after env (first_step env + 2) msg \<and>
      ((\<exists>p. declined (effectReply env) p) \<longrightarrow> marked_failed env)) \<and>
   (started env \<and> accepted (projectReply env) \<and> accepted (effectReply env) \<and>
    gives_up (numberText env) ''Failed to export: '' (exportReply env) msg \<longrightarrow>
      stops_after env (first_step env + 4) msg \<and>
      ((\<exists>p. declined (exportReply env) p) \<longrightarrow> marked_failed env)) \<and>
   (reaches_poll env \<and> poll (samples env) 0 = NotReady \<longrightarrow>
      returns env \<and>
      map step (steps (fst (runAutonomousTestCycle env))) = planned env \<and>
      snd (runAutonomousTestCycle env) = take (first_step env + 4) (planned_ops env) \<and>
      \<not> success (fst (runAutonomousTestCycle env)) \<and>
      error (fst (runAutonomousTestCycle env)) = Some ''Export file not ready after 60s'' \<and>
      marked_failed env) \<and>
   (reaches_poll env \<and> poll (samples env) 0 = Threw m \<longrightarrow>
      returns env \<and>
      map step (steps (fst (runAutonomousTestCycle env))) = planned env \<and>
      snd (runAutonomousTestCycle env) = take (first_step env + 4) (planned_ops env) \<and>
      \<not> success (fst (runAutonomousTestCycle env)) \<and>
      error (fst (runAutonomousTestCycle env)) = Some m) \<and>
   (reaches_poll env \<and> poll (samples env) 0 = Ready \<and>
    \<not> truthy (jprop (analysisResult env) ''success'') \<longrightarrow>
      returns env \<and>
      map step (steps (fst (runAutonomousTestCycle env))) = planned env \<and>
      snd (runAutonomousTestCycle env) = planned_ops env \<and>
      \<not> success (fst (runAutonomousTestCycle env)) \<and>
      error (fst (runAutonomousTestCycle env)) = None \<and>
      marked_failed env) \<and>
   (started env \<and> projectReply env = Unsettled \<longrightarrow> waits_in env (first_step env + 1)) \<and>
   (started env \<and> accepted (projectReply env) \<and> effectReply env = Unsettled \<longrightarrow>
      waits_in env (first_step env + 2)) \<and>
   (started env \<and> accepted (projectReply env) \<and> accepted (effectReply env) \<and>
    exportReply env = Unsettled \<longrightarrow>
      waits_in env (first_step env + 4)) \<and>
   follows_plan env \<and>
   (success (fst (runAutonomousTestCycle env)) \<longrightarrow>
      returns env \<and>
      map step (steps (fst (runAutonomousTestCycle env))) = planned env \<and>
      snd (runAutonomousTestCycle env) = planned_ops env \<and>
      error (fst (runAutonomousTestCycle env)) = None) \<and>
   (accepted reply \<or> (\<exists>text. gives_up (numberText env) prefix reply text) \<or>
    reply = Unsettled)"
proof -
  have one: "\<not> started env \<longrightarrow>
      stops_after env 1 ''Failed to start Premiere'' \<and> marked_failed env"
    using restart_gives_up [of env] by blast
  have two: "started env \<and>
      gives_up (numberText env) ''Failed to open project: '' (projectReply env) msg \<longrightarrow>
      stops_after env (first_step env + 1) msg \<and>
      ((\<exists>p. declined (projectReply env) p) \<longrightarrow> marked_failed env)"
    using open_project_gives_up [of env msg] by blast
  have three: "started env \<and> accepted (projectReply env) \<and>
      gives_up (numberText env) ''Failed to apply effect: '' (effectReply env) msg \<longrightarrow>
      stops_after env (first_step env + 2) msg \<and>
      ((\<exists>p. declined (effectReply env) p) \<longrightarrow> marked_failed env)"
    using apply_effect_gives_up [of env msg] by blast
  have four: "started env \<and> accepted (projectReply env) \<and> accepted (effectReply env) \<and>
      gives_up (numberText env) ''Failed to export: '' (exportReply env) msg \<longrightarrow>
      stops_after env (first_step env + 4) msg \<and>
      ((\<exists>p. declined (exportReply env) p) \<longrightarrow> marked_failed env)"
    using export_sequence_gives_up [of env msg] by blast
  have five: "reaches_poll env \<and> poll (samples env) 0 = NotReady \<longrightarrow>
      returns env \<and>
      map step (steps (fst (runAutonomousTestCycle env))) = planned env \<and>
      snd (runAutonomousTestCycle env) = take (first_step env + 4) (planned_ops env) \<and>
      \<not> success (fst (runAutonomousTestCycle env)) \<and>
      error (fst (runAutonomousTestCycle env)) = Some ''Export file not ready after 60s'' \<and>
      marked_failed env"
    using poll_stage [of env] by simp
  have six: "reaches_poll env \<and> poll (samples env) 0 = Threw m \<longrightarrow>
      returns env \<and>
      map step (steps (fst (runAutonomousTestCycle env))) = planned env \<and>
      snd (runAutonomousTestCycle env) = take (first_step env + 4) (planned_ops env) \<and>
      \<not> success (fst (runAutonomousTestCycle env)) \<and>
      error (fst (runAutonomousTestCycle env)) = Some m"
    using poll_stage [of env] by simp
  have seven: "reaches_poll env \<and> poll (samples env) 0 = Ready \<and>
      \<not> truthy (jprop (analysisResult env) ''success'') \<longrightarrow>
      returns env \<and>
      map step (steps (fst (runAutonomousTestCycle env))) = planned env \<and>
      snd (runAutonomousTestCycle env) = planned_ops env \<and>
      \<not> success (fst (runAutonomousTestCycle env)) \<and>
      error (fst (runAutonomousTestCycle env)) = None \<and>
      marked_failed env"
    using poll_stage [of env] by simp
  have eight: "started env \<and> projectReply env = Unsettled \<longrightarrow>
      waits_in env (first_step env + 1)"
    using open_project_waits [of env] by blast
  have nine: "started env \<and> accepted (projectReply env) \<and> effectReply env = Unsettled \<longrightarrow>
      waits_in env (first_step env + 2)"
    using apply_effect_waits [of env] by blast
  have ten: "started env \<and> accepted (projectReply env) \<and> accepted (effectReply env) \<and>
      exportReply env = Unsettled \<longrightarrow>
      waits_in env (first_step env + 4)"
    using export_sequence_waits [of env] by blast
  have eleven: "follows_plan env"
    using run_follows_plan [of env] by simp
  have twelve: "success (fst (runAutonomousTestCycle env)) \<longrightarrow>
      returns env \<and>
      map step (steps (fst (runAutonomousTestCycle env))) = planned env \<and>
      snd (runAutonomousTestCycle env) = planned_ops env \<and>
      error (fst (runAutonomousTestCycle env)) = None"
    using run_follows_plan [of env] success_returns [of env] by simp
  have thirteen: "accepted reply \<or> (\<exists>text. gives_up (numberText env) prefix reply text) \<or>
      reply = Unsettled"
    by (rule reply_cases)
  from one two three four five six seven eight nine ten eleven twelve thirteen
  show ?thesis by (intro conjI) assumption+
qed

theorem failed_step_ends_the_run_witness:
  "started failing_open_env \<and>
   gives_up (numberText failing_open_env) ''Failed to open project: ''
     (projectReply failing_open_env) ''Failed to open project: No project'' \<and>
   declined (projectReply failing_open_env)
     (JObj [(''success'', JBool False), (''error'', JStr ''No project'')]) \<and>
   stops_after failing_open_env 1 ''Failed to open project: No project'' \<and>
   marked_failed failing_open_env"
proof -
  have a: "started failing_open_env" by (simp add: started_def failing_open_env_def)
  have b: "declined (projectReply failing_open_env)
     (JObj [(''success'', JBool False), (''error'', JStr ''No project'')])"
    by (simp add: declined_def failing_open_env_def)
  have "\<exists>p wording. declined (projectReply failing_open_env) p \<and>
          String (numberText failing_open_env) (jprop p ''error'') = Some wording \<and>
          ''Failed to open project: No project'' = ''Failed to open project: '' @ wording"
    by (rule exI [of _ "JObj [(''success'', JBool False), (''error'', JStr ''No project'')]"],
        rule exI [of _ "''No project''"])
       (simp add: declined_def failing_open_env_def String_def)
  then have g: "gives_up (numberText failing_open_env) ''Failed to open project: ''
     (projectReply failing_open_env) ''Failed to open project: No project''"
    unfolding gives_up_def by blast
  have c: "first_step failing_open_env = 0" by (simp add: first_step_def failing_open_env_def)
  note failed_step_ends_the_run [of failing_open_env "''Failed to open project: No project''",
    THEN conjunct2, THEN conjunct1]
  with a g have "stops_after failing_open_env (first_step failing_open_env + 1)
          ''Failed to open project: No project'' \<and>
        ((\<exists>p. declined (projectReply failing_open_env) p) \<longrightarrow>
           marked_failed failing_open_env)"
    by blast
  with b c have "stops_after failing_open_env 1 ''Failed to open project: No project'' \<and>
        marked_failed failing_open_env"
    by auto
  with a b g show ?thesis by blast
qed

text \<open>
  C7 as stated fails: \<^verbatim>\<open>open_test_project\<close> fails with the error text \<^verbatim>\<open>No project\<close>;
  \<^verbatim>\<open>error\<close> is not that text but the text behind a prefix, and the report has one entry,
  the failed step: the steps never invoked are not listed, with status pending or any
  other.
\<close>

theorem failed_step_report_has_no_pending_steps:
  "declined (projectReply failing_open_env)
     (JObj [(''success'', JBool False), (''error'', JStr ''No project'')]) \<and>
   jprop (JObj [(''success'', JBool False), (''error'', JStr ''No project'')]) ''error''
     = Some (JStr ''No project'') \<and>
   error (fst (runAutonomousTestCycle failing_open_env))
     = Some ''Failed to open project: No project'' \<and>
   error (fst (runAutonomousTestCycle failing_open_env)) \<noteq> Some ''No project'' \<and>
   map step (steps (fst (runAutonomousTestCycle failing_open_env))) = [''open_project''] \<and>
   map status (steps (fst (runAutonomousTestCycle failing_open_env))) = [''failed'']"
  by (simp add: runAutonomousTestCycle_def test_cycle_def failing_open_env_def
        ensure_connected_def remote_step_def update_last_push status_of_def declined_def
        String_def Let_def)

text \<open>
  C8. The poll declares the export ready exactly when one of its 60 rounds reads two
  sizes that are equal and greater than zero (no earlier round having failed in
  \<^verbatim>\<open>statSync\<close>). When no round does and none fails, the step fails: it is marked failed,
  \<^verbatim>\<open>error\<close> is \<^verbatim>\<open>Export file not ready after 60s\<close> and the analysis is not invoked. When
  the export is declared ready, the run goes on to the analysis, whose \<^verbatim>\<open>success\<close> is
  the one of the run.
\<close>

theorem export_ready_iff_stable_samples:
  "(poll (samples env) 0 = Ready \<longleftrightarrow>
      (\<exists>k<60. sizes_stable (samples env k) \<and> (\<forall>j<k. \<not> is_stat_error (samples env j)))) \<and>
   (reaches_poll env \<and> (\<forall>k<60. \<not> sizes_stable (samples env k) \<and> \<not> is_stat_error (samples env k)) \<longrightarrow>
      map step (steps (fst (runAutonomousTestCycle env))) = planned env \<and>
      status (last (steps (fst (runAutonomousTestCycle env)))) = ''failed'' \<and>
      error (fst (runAutonomousTestCycle env)) = Some ''Export file not ready after 60s'' \<and>
      \<not> success (fst (runAutonomousTestCycle env)) \<and>
      snd (runAutonomousTestCycle env) = take (first_step env + 4) (planned_ops env)) \<and>
   (reaches_poll env \<and> poll (samples env) 0 = Ready \<longrightarrow>
      map step (steps (fst (runAutonomousTestCycle env))) = planned env \<and>
      error (fst (runAutonomousTestCycle env)) = None \<and>
      success (fst (runAutonomousTestCycle env)) = truthy (jprop (analysisResult env) ''success'') \<and>
      snd (runAutonomousTestCycle env) = planned_ops env)"
proof -
  have one: "poll (samples env) 0 = Ready \<longleftrightarrow>
      (\<exists>k<60. sizes_stable (samples env k) \<and> (\<forall>j<k. \<not> is_stat_error (samples env j)))"
    using poll_Ready_iff [of "samples env" 0] by simp
  have two: "map step (steps (fst (runAutonomousTestCycle env))) = planned env \<and>
      status (last (steps (fst (runAutonomousTestCycle env)))) = ''failed'' \<and>
      error (fst (runAutonomousTestCycle env)) = Some ''Export file not ready after 60s'' \<and>
      \<not> success (fst (runAutonomousTestCycle env)) \<and>
      snd (runAutonomousTestCycle env) = take (first_step env + 4) (planned_ops env)"
    if a: "reaches_poll env \<and>
    (\<forall>k<60. \<not> sizes_stable (samples env k) \<and> \<not> is_stat_error (samples env k))"
  proof -
  from a have n: "poll (samples env) 0 = NotReady" using poll_NotReady [of 0 "samples env"] by simp
  from cycle_poll [of env] a obtain c5 where
    r: "runAutonomousTestCycle env = analyze_export (samples env) (analysisResult env) c5"
    and p: "on_plan env (Suc (Suc (Suc (Suc (first_step env))))) c5" by blast
  from p n planned_take_all [of env]
  show ?thesis
    unfolding r
    by (simp add: analyze_export_def update_last_push on_plan_def Let_def numeral_eq_Suc)
  qed
  have three: "map step (steps (fst (runAutonomousTestCycle env))) = planned env \<and>
      error (fst (runAutonomousTestCycle env)) = None \<and>
      success (fst (runAutonomousTestCycle env)) = truthy (jprop (analysisResult env) ''success'') \<and>
      snd (runAutonomousTestCycle env) = planned_ops env"
    if a: "reaches_poll env \<and> poll (samples env) 0 = Ready"
  proof -
  from cycle_poll [of env] a obtain c5 where
    r: "runAutonomousTestCycle env = analyze_export (samples env) (analysisResult env) c5"
    and p: "on_plan env (Suc (Suc (Suc (Suc (first_step env))))) c5" by blast
  from p a planned_take_all [of env]
  show ?thesis
    unfolding r
    by (simp add: analyze_export_def update_last_push on_plan_def Let_def)
  qed
  from one two three show ?thesis by blast
qed

theorem export_ready_iff_stable_samples_witness:
  "reaches_poll growing_export_env \<and>
   error (fst (runAutonomousTestCycle growing_export_env)) = Some ''Export file not ready after 60s'' \<and>
   status (last (steps (fst (runAutonomousTestCycle growing_export_env)))) = ''failed'' \<and>
   map step (steps (fst (runAutonomousTestCycle growing_export_env))) =
     [''open_project'', ''apply_effect'', ''wait_for_processing'', ''export_sequence'',
      ''analyze_export'']"
proof -
  have a: "reaches_poll growing_export_env"
    by (simp add: reaches_poll_def started_def accepted_def growing_export_env_def)
  have b: "\<forall>k<60. \<not> sizes_stable (samples growing_export_env k) \<and>
                  \<not> is_stat_error (samples growing_export_env k)"
    by (simp add: growing_export_env_def)
  have c: "planned growing_export_env =
     [''open_project'', ''apply_effect'', ''wait_for_processing'', ''export_sequence'',
      ''analyze_export'']"
    by (simp add: planned_def growing_export_env_def)
  from export_ready_iff_stable_samples [of growing_export_env] a b c show ?thesis by simp
qed

end
